theory Spec2Isabelle
  imports Complex_Main "HOL-Library.AList"
begin

section \<open>Data model\<close>

text \<open>
  The embedding follows \<^verbatim>\<open>tracker.py\<close>, \<^verbatim>\<open>counter.py\<close> and the gallery protocol of
  \<^verbatim>\<open>reid.py\<close>. Python floats are modelled as \<^typ>\<open>real\<close>, Python's unbounded integers as
  \<^typ>\<open>nat\<close> (ids and counters, which start at 0 and only grow) or \<^typ>\<open>int\<close>. A dictionary
  whose iteration order the code observes is an association list in insertion order
  (\<^const>\<open>AList.update\<close> overwrites in place or appends, as a Python \<^verbatim>\<open>dict\<close> does); the other
  dictionaries are maps. \<^verbatim>\<open>datetime.datetime.now()\<close> is a clock reading \<open>now\<close> passed to each
  operation (one reading per call). A raised \<^verbatim>\<open>KeyError\<close> or \<^verbatim>\<open>IndexError\<close> is the result
  \<^const>\<open>None\<close>. Printing, logging and the persistence sink do not feed back into the state and
  are left out.
\<close>

datatype state = New | Scanned | Exited

datatype side = Left | Right

type_synonym centroid = "real \<times> real"
type_synonym bbox = "real \<times> real \<times> real \<times> real"
type_synonym detection = "real \<times> real \<times> real \<times> real \<times> real"

record timestamp =
  first_seen :: real
  last_seen :: real

text \<open>
  \<^verbatim>\<open>PersonReID\<close>: the network behind \<^verbatim>\<open>extract_features\<close> and the dot product of
  \<^verbatim>\<open>compare_features\<close> are carried as two function fields over an abstract frame type \<open>'f\<close>
  and feature type \<open>'e\<close>.
\<close>

record ('f, 'e) PersonReID =
  similarity_threshold :: real
  gallery :: "(nat \<times> 'e) list"
  person_count :: nat
  person_id_mapping :: "nat \<rightharpoonup> nat"
  extract_features :: "'f \<Rightarrow> bbox \<Rightarrow> 'e"
  compare_features :: "'e \<Rightarrow> 'e \<Rightarrow> real"

record ('f, 'e) Tracker =
  next_object_id :: nat
  objects :: "(nat \<times> centroid) list"
  disappeared :: "(nat \<times> nat) list"
  positions :: "nat \<rightharpoonup> bbox"
  timestamps :: "(nat \<times> timestamp) list"
  states :: "nat \<rightharpoonup> state"
  entry_times :: "nat \<rightharpoonup> real"
  exit_times :: "nat \<rightharpoonup> real"
  max_disappeared :: int
  max_distance :: real
  exit_timeout :: real
  reid_enabled :: bool
  person_ids :: "nat \<rightharpoonup> nat"
  counted_people :: "nat set"
  reid :: "('f, 'e) PersonReID option"

text \<open>One value of the dictionary returned by \<^verbatim>\<open>get_objects\<close>.\<close>

record object_info =
  obj_centroid :: centroid
  obj_bbox :: bbox
  obj_timestamps :: timestamp
  obj_state :: state
  obj_entry_time :: "real option"
  obj_exit_time :: "real option"
  obj_person_id :: "nat option"
  obj_already_counted :: bool

record last_data =
  position :: side
  counted :: bool

record VisitorCounter =
  line_position :: int
  direction :: side
  count :: nat
  total_left :: nat
  total_right :: nat
  last_positions :: "nat \<rightharpoonup> last_data"
  counted_ids :: "nat set"
  debug :: bool

record stats =
  total :: nat
  stats_total_left :: nat
  stats_total_right :: nat

section \<open>Person re-identification: the gallery protocol\<close>

definition init_reid ::
  "real \<Rightarrow> ('f \<Rightarrow> bbox \<Rightarrow> 'e) \<Rightarrow> ('e \<Rightarrow> 'e \<Rightarrow> real) \<Rightarrow> ('f, 'e) PersonReID"
where
  "init_reid threshold extract compare =
     \<lparr>similarity_threshold = threshold,
      gallery = [],
      person_count = 0,
      person_id_mapping = Map.empty,
      extract_features = extract,
      compare_features = compare\<rparr>"

text \<open>The loop of \<^verbatim>\<open>identify_person\<close> over \<^verbatim>\<open>self.gallery.items()\<close>.\<close>

definition best_match :: "('f, 'e) PersonReID \<Rightarrow> 'e \<Rightarrow> nat option \<times> real" where
  "best_match r features =
     fold (\<lambda>(pid, stored_features) (best_match_id, best_match_score).
             let similarity = compare_features r features stored_features in
             if similarity > best_match_score then (Some pid, similarity)
             else (best_match_id, best_match_score))
          (gallery r) (None, 0)"

definition identify_person ::
  "'f \<Rightarrow> bbox \<Rightarrow> nat \<Rightarrow> ('f, 'e) PersonReID \<Rightarrow> (nat \<times> bool) \<times> ('f, 'e) PersonReID"
where
  "identify_person frame bb tracking_id r =
     (case person_id_mapping r tracking_id of
        Some pid \<Rightarrow> ((pid, False), r)
      | None \<Rightarrow>
          let features = extract_features r frame bb;
              (best_match_id, best_match_score) = best_match r features;
              new_person_id = person_count r + 1;
              fresh =
                ((new_person_id, True),
                 r\<lparr>person_count := new_person_id,
                   gallery := AList.update new_person_id features (gallery r),
                   person_id_mapping := (person_id_mapping r)(tracking_id \<mapsto> new_person_id)\<rparr>)
          in
            (case best_match_id of
               None \<Rightarrow> fresh
             | Some b \<Rightarrow>
                 if best_match_score > similarity_threshold r
                 then ((b, False),
                       r\<lparr>person_id_mapping := (person_id_mapping r)(tracking_id \<mapsto> b)\<rparr>)
                 else fresh))"

section \<open>The tracker\<close>

text \<open>
  \<^verbatim>\<open>Tracker.__init__\<close>. The argument \<open>loaded\<close> is the result of constructing the
  \<^verbatim>\<open>PersonReID\<close> object: \<^const>\<open>None\<close> when the constructor raised, in which case the
  tracker switches re-identification off.
\<close>

definition init_tracker ::
  "int \<Rightarrow> real \<Rightarrow> real \<Rightarrow> bool \<Rightarrow> ('f, 'e) PersonReID option \<Rightarrow> ('f, 'e) Tracker"
where
  "init_tracker max_disappeared' max_distance' exit_timeout' reid_enabled' loaded =
     \<lparr>next_object_id = 0,
      objects = [],
      disappeared = [],
      positions = Map.empty,
      timestamps = [],
      states = Map.empty,
      entry_times = Map.empty,
      exit_times = Map.empty,
      max_disappeared = max_disappeared',
      max_distance = max_distance',
      exit_timeout = exit_timeout',
      reid_enabled = (reid_enabled' \<and> loaded \<noteq> None),
      person_ids = Map.empty,
      counted_people = {},
      reid = (if reid_enabled' then loaded else None)\<rparr>"

definition live :: "('f, 'e) Tracker \<Rightarrow> nat set" where
  "live t = fst ` set (objects t)"

text \<open>\<^verbatim>\<open>mark_as_scanned\<close> returns whether the id is live, and the tracker.\<close>

definition mark_as_scanned :: "nat \<Rightarrow> ('f, 'e) Tracker \<Rightarrow> bool \<times> ('f, 'e) Tracker" where
  "mark_as_scanned object_id t =
     (if object_id \<in> live t
      then (True, t\<lparr>states := (states t)(object_id \<mapsto> Scanned)\<rparr>)
      else (False, t))"

definition mark_as_counted :: "real \<Rightarrow> nat \<Rightarrow> ('f, 'e) Tracker \<Rightarrow> ('f, 'e) Tracker" where
  "mark_as_counted now object_id t =
     (case states t object_id of
        None \<Rightarrow> t
      | Some s \<Rightarrow>
          if s = New
          then t\<lparr>states := (states t)(object_id \<mapsto> Scanned),
                 entry_times := (entry_times t)(object_id \<mapsto> now)\<rparr>
          else t)"

definition is_already_counted :: "nat \<Rightarrow> ('f, 'e) Tracker \<Rightarrow> bool" where
  "is_already_counted object_id t =
     (if \<not> reid_enabled t then False
      else case person_ids t object_id of
             Some pid \<Rightarrow> pid \<in> counted_people t
           | None \<Rightarrow> False)"

text \<open>
  \<^verbatim>\<open>register\<close> returns the new track id. With re-identification on and a frame given it
  calls \<^verbatim>\<open>self.reid.identify_person\<close>; a tracker without that attribute raises.
\<close>

definition register ::
  "real \<Rightarrow> centroid \<Rightarrow> bbox \<Rightarrow> 'f option \<Rightarrow> ('f, 'e) Tracker \<Rightarrow> (nat \<times> ('f, 'e) Tracker) option"
where
  "register now c bb frame t =
     (let track_id = next_object_id t;
          t1 = t\<lparr>objects := AList.update track_id c (objects t),
                 positions := (positions t)(track_id \<mapsto> bb),
                 disappeared := AList.update track_id 0 (disappeared t),
                 timestamps :=
                   AList.update track_id \<lparr>first_seen = now, last_seen = now\<rparr> (timestamps t),
                 states := (states t)(track_id \<mapsto> New)\<rparr>
      in
        case (if reid_enabled t1 then frame else None) of
          None \<Rightarrow> Some (track_id, t1\<lparr>next_object_id := next_object_id t1 + 1\<rparr>)
        | Some fr \<Rightarrow>
            (case reid t1 of
               None \<Rightarrow> None
             | Some r \<Rightarrow>
                 let ((pid, is_new), r') = identify_person fr bb track_id r;
                     t2 = t1\<lparr>reid := Some r',
                             person_ids := (person_ids t1)(track_id \<mapsto> pid)\<rparr>;
                     t3 = (if pid \<in> counted_people t2
                           then mark_as_counted now track_id t2 else t2)
                 in Some (track_id, t3\<lparr>next_object_id := next_object_id t3 + 1\<rparr>)))"

text \<open>
  \<^verbatim>\<open>deregister\<close>: \<^verbatim>\<open>self.states[object_id]\<close> and the three \<^verbatim>\<open>del\<close> statements raise
  \<^verbatim>\<open>KeyError\<close> on a missing key.
\<close>

definition deregister :: "real \<Rightarrow> nat \<Rightarrow> ('f, 'e) Tracker \<Rightarrow> ('f, 'e) Tracker option" where
  "deregister now object_id t =
     (case states t object_id of
        None \<Rightarrow> None
      | Some s \<Rightarrow>
          let t1 =
                (if s = Scanned
                 then
                   let t' = t\<lparr>states := (states t)(object_id \<mapsto> Exited),
                                exit_times := (exit_times t)(object_id \<mapsto> now)\<rparr>
                   in
                     if reid_enabled t'
                     then (case person_ids t' object_id of
                             Some pid \<Rightarrow> t'\<lparr>counted_people := insert pid (counted_people t')\<rparr>
                           | None \<Rightarrow> t')
                     else t'
                 else t)
          in
            if object_id \<in> fst ` set (objects t1)
               \<and> object_id \<in> fst ` set (disappeared t1)
               \<and> object_id \<in> dom (positions t1)
            then Some (t1\<lparr>objects := AList.delete object_id (objects t1),
                           disappeared := AList.delete object_id (disappeared t1),
                           positions := (positions t1)(object_id := None)\<rparr>)
            else None)"

definition object_entry :: "('f, 'e) Tracker \<Rightarrow> nat \<times> centroid \<Rightarrow> (nat \<times> object_info) option" where
  "object_entry t item =
     (let (object_id, c) = item in
      case positions t object_id of
        None \<Rightarrow> None
      | Some bb \<Rightarrow>
          (case map_of (timestamps t) object_id of
             None \<Rightarrow> None
           | Some ts \<Rightarrow>
               (case states t object_id of
                  None \<Rightarrow> None
                | Some s \<Rightarrow>
                    Some (object_id,
                      \<lparr>obj_centroid = c,
                       obj_bbox = bb,
                       obj_timestamps = ts,
                       obj_state = s,
                       obj_entry_time = entry_times t object_id,
                       obj_exit_time = exit_times t object_id,
                       obj_person_id =
                         (if reid_enabled t then person_ids t object_id else None),
                       obj_already_counted = is_already_counted object_id t\<rparr>))))"

definition get_objects :: "('f, 'e) Tracker \<Rightarrow> (nat \<times> object_info) list option" where
  "get_objects t = those (map (object_entry t) (objects t))"

text \<open>
  \<^verbatim>\<open>check_for_exits\<close> iterates over a copy of \<^verbatim>\<open>self.timestamps.items()\<close>; the tracker is
  threaded through the loop together with \<^verbatim>\<open>exited_ids\<close>.
\<close>

fun check_exits_loop ::
  "real \<Rightarrow> (nat \<times> timestamp) list \<Rightarrow> nat list \<times> ('f, 'e) Tracker
     \<Rightarrow> (nat list \<times> ('f, 'e) Tracker) option"
where
  "check_exits_loop current_time [] acc = Some acc"
| "check_exits_loop current_time ((object_id, ts) # rest) (exited_ids, t) =
     (if states t object_id = Some Scanned
      then
        let time_diff = current_time - last_seen ts in
        if time_diff > exit_timeout t \<and> object_id \<in> live t
        then
          (case deregister current_time object_id
                  (t\<lparr>states := (states t)(object_id \<mapsto> Exited),
                     exit_times := (exit_times t)(object_id \<mapsto> current_time)\<rparr>) of
             None \<Rightarrow> None
           | Some t' \<Rightarrow> check_exits_loop current_time rest (exited_ids @ [object_id], t'))
        else check_exits_loop current_time rest (exited_ids, t)
      else check_exits_loop current_time rest (exited_ids, t))"

definition check_for_exits ::
  "real \<Rightarrow> ('f, 'e) Tracker \<Rightarrow> (nat list \<times> ('f, 'e) Tracker) option"
where
  "check_for_exits current_time t = check_exits_loop current_time (timestamps t) ([], t)"

subsection \<open>update\<close>

fun deregister_each :: "real \<Rightarrow> nat list \<Rightarrow> ('f, 'e) Tracker \<Rightarrow> ('f, 'e) Tracker option" where
  "deregister_each now [] t = Some t"
| "deregister_each now (obj_id # rest) t =
     (case deregister now obj_id t of
        None \<Rightarrow> None
      | Some t' \<Rightarrow> deregister_each now rest t')"

text \<open>
  The load shedding at the head of \<^verbatim>\<open>update\<close>. Python's \<^verbatim>\<open>sorted(..., reverse=True)\<close> is
  stable: entries with equal counts keep their dictionary order.
\<close>

definition shed_load ::
  "real \<Rightarrow> detection list \<Rightarrow> ('f, 'e) Tracker \<Rightarrow> ('f, 'e) Tracker option"
where
  "shed_load now detections t =
     (if length (objects t) > 2 * length detections \<and> length detections > 0
      then
        let objects_to_remove = sort_key (\<lambda>x. - int (snd x)) (disappeared t) in
        deregister_each now
          (map fst (take (length objects_to_remove div 2) objects_to_remove)) t
      else Some t)"

text \<open>
  The two statements both disappearance loops of \<^verbatim>\<open>update\<close> run for an object id: count one
  more missed frame and deregister the object once the count exceeds \<^verbatim>\<open>max_disappeared\<close>.
\<close>

definition mark_disappeared ::
  "real \<Rightarrow> nat \<Rightarrow> ('f, 'e) Tracker \<Rightarrow> ('f, 'e) Tracker option"
where
  "mark_disappeared now object_id t =
     (case map_of (disappeared t) object_id of
        None \<Rightarrow> None
      | Some d \<Rightarrow>
          let t1 = t\<lparr>disappeared := AList.update object_id (d + 1) (disappeared t)\<rparr> in
          if int (d + 1) > max_disappeared t1 then deregister now object_id t1 else Some t1)"

fun disappear_each :: "real \<Rightarrow> nat list \<Rightarrow> ('f, 'e) Tracker \<Rightarrow> ('f, 'e) Tracker option" where
  "disappear_each now [] t = Some t"
| "disappear_each now (object_id # rest) t =
     (case mark_disappeared now object_id t of
        None \<Rightarrow> None
      | Some t' \<Rightarrow> disappear_each now rest t')"

definition centroid_of :: "detection \<Rightarrow> centroid" where
  "centroid_of det = (let (x1, y1, x2, y2, conf) = det in ((x1 + x2) / 2, (y1 + y2) / 2))"

definition bbox_of :: "detection \<Rightarrow> bbox" where
  "bbox_of det = (let (x1, y1, x2, y2, conf) = det in (x1, y1, x2, y2))"

fun register_each ::
  "real \<Rightarrow> 'f option \<Rightarrow> (centroid \<times> bbox) list \<Rightarrow> ('f, 'e) Tracker \<Rightarrow> ('f, 'e) Tracker option"
where
  "register_each now frame [] t = Some t"
| "register_each now frame ((c, bb) # rest) t =
     (case register now c bb frame t of
        None \<Rightarrow> None
      | Some (track_id, t') \<Rightarrow> register_each now frame rest t')"

text \<open>
  \<^verbatim>\<open>scipy.spatial.distance.cdist\<close> with its default metric, and numpy's \<^verbatim>\<open>min\<close> and
  \<^verbatim>\<open>argmin\<close> along a row (\<^verbatim>\<open>argmin\<close> returns the first index of the minimum). The rows of
  the matrix are never empty where they are used: \<^verbatim>\<open>update\<close> has returned before when there
  is no detection.
\<close>

definition euclidean :: "centroid \<Rightarrow> centroid \<Rightarrow> real" where
  "euclidean p q = sqrt ((fst p - fst q)\<^sup>2 + (snd p - snd q)\<^sup>2)"

definition cdist :: "centroid list \<Rightarrow> centroid list \<Rightarrow> real list list" where
  "cdist ps qs = map (\<lambda>p. map (euclidean p) qs) ps"

fun amin :: "real list \<Rightarrow> real" where
  "amin (x # xs) = fold min xs x"

definition argmin :: "real list \<Rightarrow> nat" where
  "argmin xs = length (takeWhile (\<lambda>x. x \<noteq> amin xs) xs)"

definition nth_opt :: "'a list \<Rightarrow> nat \<Rightarrow> 'a option" where
  "nth_opt xs i = (if i < length xs then Some (xs ! i) else None)"

text \<open>
  The contract of numpy's \<^verbatim>\<open>argsort\<close>, which \<^verbatim>\<open>update\<close> takes as a parameter: the result
  lists every index once, in ascending order of the keys. The order among equal keys is
  not fixed by numpy's default sorting kind.
\<close>

definition argsort_ok :: "(real list \<Rightarrow> nat list) \<Rightarrow> real list \<Rightarrow> bool" where
  "argsort_ok argsort ks =
     (distinct (argsort ks) \<and> set (argsort ks) = {0..<length ks}
      \<and> sorted (map (\<lambda>i. ks ! i) (argsort ks)))"

text \<open>A stable argsort, as numpy's insertion sort on short arrays gives.\<close>

definition stable_argsort :: "real list \<Rightarrow> nat list" where
  "stable_argsort ks = sort_key (\<lambda>i. ks ! i) [0..<length ks]"

text \<open>The statements that assign detection \<open>col\<close> to the object of row \<open>row\<close>.\<close>

definition assign ::
  "real \<Rightarrow> nat list \<Rightarrow> centroid list \<Rightarrow> bbox list \<Rightarrow> nat \<times> nat \<Rightarrow> ('f, 'e) Tracker
     \<Rightarrow> ('f, 'e) Tracker option"
where
  "assign now object_ids input_centroids input_bboxes rc t =
     (let (row, col) = rc in
      case nth_opt object_ids row of
        None \<Rightarrow> None
      | Some object_id \<Rightarrow>
          (case nth_opt input_centroids col of
             None \<Rightarrow> None
           | Some c \<Rightarrow>
               (case nth_opt input_bboxes col of
                  None \<Rightarrow> None
                | Some bb \<Rightarrow>
                    (case map_of (timestamps t) object_id of
                       None \<Rightarrow> None
                     | Some ts \<Rightarrow>
                         Some (t\<lparr>objects := AList.update object_id c (objects t),
                                 positions := (positions t)(object_id \<mapsto> bb),
                                 disappeared := AList.update object_id 0 (disappeared t),
                                 timestamps :=
                                   AList.update object_id (ts\<lparr>last_seen := now\<rparr>)
                                     (timestamps t)\<rparr>)))))"

text \<open>The loop over \<^verbatim>\<open>zip(rows, cols)\<close>, with \<^verbatim>\<open>used_rows\<close> and \<^verbatim>\<open>used_cols\<close>.\<close>

fun match_loop ::
  "real \<Rightarrow> real list list \<Rightarrow> nat list \<Rightarrow> centroid list \<Rightarrow> bbox list \<Rightarrow> (nat \<times> nat) list
     \<Rightarrow> nat set \<times> nat set \<times> ('f, 'e) Tracker \<Rightarrow> (nat set \<times> nat set \<times> ('f, 'e) Tracker) option"
where
  "match_loop now D object_ids input_centroids input_bboxes [] acc = Some acc"
| "match_loop now D object_ids input_centroids input_bboxes ((row, col) # rest)
       (used_rows, used_cols, t) =
     (if row \<in> used_rows \<or> col \<in> used_cols
      then match_loop now D object_ids input_centroids input_bboxes rest (used_rows, used_cols, t)
      else
        case Option.bind (nth_opt D row) (\<lambda>r. nth_opt r col) of
          None \<Rightarrow> None
        | Some d \<Rightarrow>
            if d > max_distance t
            then match_loop now D object_ids input_centroids input_bboxes rest
                   (used_rows, used_cols, t)
            else
              (case assign now object_ids input_centroids input_bboxes (row, col) t of
                 None \<Rightarrow> None
               | Some t' \<Rightarrow>
                   match_loop now D object_ids input_centroids input_bboxes rest
                     (insert row used_rows, insert col used_cols, t')))"

fun disappear_rows ::
  "real \<Rightarrow> nat list \<Rightarrow> nat list \<Rightarrow> ('f, 'e) Tracker \<Rightarrow> ('f, 'e) Tracker option"
where
  "disappear_rows now object_ids [] t = Some t"
| "disappear_rows now object_ids (row # rest) t =
     (case nth_opt object_ids row of
        None \<Rightarrow> None
      | Some object_id \<Rightarrow>
          (case mark_disappeared now object_id t of
             None \<Rightarrow> None
           | Some t' \<Rightarrow> disappear_rows now object_ids rest t'))"

text \<open>
  The branch of \<^verbatim>\<open>update\<close> that matches detections with the live objects. The two sets of
  unused indices are iterated in ascending order, which is the order in which CPython
  iterates a set of small non-negative integers.
\<close>

definition associate ::
  "(real list \<Rightarrow> nat list) \<Rightarrow> real \<Rightarrow> centroid list \<Rightarrow> bbox list \<Rightarrow> 'f option
     \<Rightarrow> ('f, 'e) Tracker \<Rightarrow> ('f, 'e) Tracker option"
where
  "associate argsort now input_centroids input_bboxes frame t =
     (let object_ids = map fst (objects t);
          object_centroids = map snd (objects t);
          D = cdist object_centroids input_centroids;
          rows = argsort (map amin D);
          cols = map (\<lambda>row. argmin (D ! row)) rows
      in
        case match_loop now D object_ids input_centroids input_bboxes (zip rows cols)
               ({}, {}, t) of
          None \<Rightarrow> None
        | Some (used_rows, used_cols, t1) \<Rightarrow>
            let unused_rows = filter (\<lambda>row. row \<notin> used_rows) [0..<length D] in
            (case disappear_rows now object_ids unused_rows t1 of
               None \<Rightarrow> None
             | Some t2 \<Rightarrow>
                 let unused_cols =
                       filter (\<lambda>col. col \<notin> used_cols) [0..<length input_centroids]
                 in register_each now frame
                      (map (\<lambda>col. (input_centroids ! col, input_bboxes ! col)) unused_cols)
                      t2))"

text \<open>
  \<^verbatim>\<open>update\<close> returns the dictionary of \<^verbatim>\<open>get_objects\<close>; the model returns it with the
  tracker.
\<close>

definition update ::
  "(real list \<Rightarrow> nat list) \<Rightarrow> real \<Rightarrow> detection list \<Rightarrow> 'f option \<Rightarrow> ('f, 'e) Tracker
     \<Rightarrow> ((nat \<times> object_info) list \<times> ('f, 'e) Tracker) option"
where
  "update argsort now detections frame t =
     (case shed_load now detections t of
        None \<Rightarrow> None
      | Some t1 \<Rightarrow>
          (case
             (if length detections = 0
              then disappear_each now (map fst (disappeared t1)) t1
              else
                let input_centroids = map centroid_of detections;
                    input_bboxes = map bbox_of detections
                in
                  if length (objects t1) = 0
                  then register_each now frame (zip input_centroids input_bboxes) t1
                  else associate argsort now input_centroids input_bboxes frame t1)
           of
             None \<Rightarrow> None
           | Some t2 \<Rightarrow> map_option (\<lambda>objs. (objs, t2)) (get_objects t2)))"

section \<open>The visitor counter\<close>

text \<open>Python's \<^verbatim>\<open>int()\<close> on a float truncates towards zero.\<close>

definition py_int :: "real \<Rightarrow> int" where
  "py_int x = (if 0 \<le> x then \<lfloor>x\<rfloor> else \<lceil>x\<rceil>)"

text \<open>
  \<^verbatim>\<open>VisitorCounter.__init__\<close>: the \<open>direction\<close> argument is accepted and then overwritten by
  the constant \<^verbatim>\<open>"left"\<close>.
\<close>

definition init_counter :: "real \<Rightarrow> side \<Rightarrow> int \<Rightarrow> VisitorCounter" where
  "init_counter line_pos dir frame_width =
     \<lparr>line_position = py_int (line_pos * real_of_int frame_width),
      direction = Left,
      count = 0,
      total_left = 0,
      total_right = 0,
      last_positions = Map.empty,
      counted_ids = {},
      debug = True\<rparr>"

text \<open>The side of the vertical line on which an x coordinate lies.\<close>

definition side_of :: "int \<Rightarrow> real \<Rightarrow> side" where
  "side_of line cx = (if cx < real_of_int line then Left else Right)"

text \<open>The body of the loop of \<^verbatim>\<open>count_visitors\<close>, for one item of \<^verbatim>\<open>objects.items()\<close>.\<close>

definition count_object ::
  "nat \<times> object_info \<Rightarrow> VisitorCounter \<times> ('f, 'e) Tracker \<Rightarrow> VisitorCounter \<times> ('f, 'e) Tracker"
where
  "count_object item ct =
     (let (object_id, data) = item; (c, tracker) = ct in
      if object_id \<in> counted_ids c then (c, tracker)
      else
        let cx = fst (obj_centroid data);
            current_position = side_of (line_position c) cx
        in
          case last_positions c object_id of
            None \<Rightarrow>
              (c\<lparr>last_positions := (last_positions c)
                    (object_id \<mapsto> \<lparr>position = current_position, counted = False\<rparr>)\<rparr>,
               tracker)
          | Some ld \<Rightarrow>
              let last_position = position ld;
                  already = counted ld;
                  (c1, tracker1) =
                    (if \<not> already \<and> object_id \<notin> counted_ids c
                     then
                       if last_position = Right \<and> current_position = Left
                       then
                         (c\<lparr>count := count c + 1,
                            total_left := total_left c + 1,
                            last_positions := (last_positions c)
                              (object_id \<mapsto> ld\<lparr>counted := True\<rparr>),
                            counted_ids := insert object_id (counted_ids c)\<rparr>,
                          snd (mark_as_scanned object_id tracker))
                       else (c, tracker)
                     else (c, tracker))
              in
                (c1\<lparr>last_positions := (last_positions c1)
                      (object_id :=
                         map_option (\<lambda>d. d\<lparr>position := current_position\<rparr>)
                           (last_positions c1 object_id))\<rparr>,
                 tracker1))"

text \<open>
  \<^verbatim>\<open>count_visitors\<close> returns \<^verbatim>\<open>self.count\<close>; the model returns the counter (whose
  \<^const>\<open>count\<close> is that value) and the tracker it has marked.
\<close>

definition count_visitors ::
  "(nat \<times> object_info) list \<Rightarrow> ('f, 'e) Tracker \<Rightarrow> VisitorCounter
     \<Rightarrow> VisitorCounter \<times> ('f, 'e) Tracker"
where
  "count_visitors objs tracker c =
     (if objs = [] then (c, tracker) else fold count_object objs (c, tracker))"

definition get_stats :: "VisitorCounter \<Rightarrow> stats" where
  "get_stats c =
     \<lparr>total = count c, stats_total_left = total_left c, stats_total_right = total_right c\<rparr>"

text \<open>
  A sequence of \<^verbatim>\<open>count_visitors\<close> invocations on one counter. Each invocation is given its
  own object dictionary and the tracker as it is at that moment, so any tracker operations
  may lie between two invocations.
\<close>

fun count_frames ::
  "((nat \<times> object_info) list \<times> ('f, 'e) Tracker) list \<Rightarrow> VisitorCounter \<Rightarrow> VisitorCounter"
where
  "count_frames [] c = c"
| "count_frames ((objs, tracker) # rest) c =
     count_frames rest (fst (count_visitors objs tracker c))"

section \<open>The main loop\<close>

text \<open>
  The processing of one frame in \<^verbatim>\<open>main.py\<close>, with counting enabled: the tracker is updated
  (the source makes the call twice), the exit sweep runs when at least a second has passed
  since the last one (the flag \<open>sweep\<close>), and the counter is given the object dictionary of
  the second update. The detector's result and the frame handed to the tracker are inputs.
\<close>

definition process_frame ::
  "(real list \<Rightarrow> nat list) \<Rightarrow> real \<times> bool \<times> detection list \<times> 'f option
     \<Rightarrow> VisitorCounter \<times> ('f, 'e) Tracker \<Rightarrow> (VisitorCounter \<times> ('f, 'e) Tracker) option"
where
  "process_frame argsort input ct =
     (let (now, sweep, detections, frame) = input; (c, tracker) = ct in
      case update argsort now detections frame tracker of
        None \<Rightarrow> None
      | Some (objs0, tracker1) \<Rightarrow>
          (case update argsort now detections frame tracker1 of
             None \<Rightarrow> None
           | Some (objs, tracker2) \<Rightarrow>
               (case (if sweep then map_option snd (check_for_exits now tracker2)
                      else Some tracker2) of
                  None \<Rightarrow> None
                | Some tracker3 \<Rightarrow> Some (count_visitors objs tracker3 c))))"

fun run_frames ::
  "(real list \<Rightarrow> nat list) \<Rightarrow> (real \<times> bool \<times> detection list \<times> 'f option) list
     \<Rightarrow> VisitorCounter \<times> ('f, 'e) Tracker \<Rightarrow> (VisitorCounter \<times> ('f, 'e) Tracker) option"
where
  "run_frames argsort [] ct = Some ct"
| "run_frames argsort (input # rest) ct =
     (case process_frame argsort input ct of
        None \<Rightarrow> None
      | Some ct' \<Rightarrow> run_frames argsort rest ct')"

section \<open>Sequences of operations\<close>

text \<open>
  The operations of the tracker and of the counter, as a caller may invoke them in any
  order. \<^verbatim>\<open>count_visitors\<close> may be given any object dictionary, also a stale one.
\<close>

datatype 'f operation =
    Update real "detection list" "'f option"
  | CheckForExits real
  | CountVisitors "(nat \<times> object_info) list"
  | Register real centroid bbox "'f option"
  | Deregister real nat
  | MarkAsScanned nat
  | MarkAsCounted real nat

fun apply_op ::
  "(real list \<Rightarrow> nat list) \<Rightarrow> 'f operation \<Rightarrow> VisitorCounter \<times> ('f, 'e) Tracker
     \<Rightarrow> (VisitorCounter \<times> ('f, 'e) Tracker) option"
where
  "apply_op argsort (Update now detections frame) (c, t) =
     map_option (\<lambda>r. (c, snd r)) (update argsort now detections frame t)"
| "apply_op argsort (CheckForExits now) (c, t) =
     map_option (\<lambda>r. (c, snd r)) (check_for_exits now t)"
| "apply_op argsort (CountVisitors objs) (c, t) = Some (count_visitors objs t c)"
| "apply_op argsort (Register now cen bb frame) (c, t) =
     map_option (\<lambda>r. (c, snd r)) (register now cen bb frame t)"
| "apply_op argsort (Deregister now object_id) (c, t) =
     map_option (\<lambda>t'. (c, t')) (deregister now object_id t)"
| "apply_op argsort (MarkAsScanned object_id) (c, t) =
     Some (c, snd (mark_as_scanned object_id t))"
| "apply_op argsort (MarkAsCounted now object_id) (c, t) =
     Some (c, mark_as_counted now object_id t)"

fun run_ops ::
  "(real list \<Rightarrow> nat list) \<Rightarrow> 'f operation list \<Rightarrow> VisitorCounter \<times> ('f, 'e) Tracker
     \<Rightarrow> (VisitorCounter \<times> ('f, 'e) Tracker) option"
where
  "run_ops argsort [] ct = Some ct"
| "run_ops argsort (op # ops) ct =
     (case apply_op argsort op ct of
        None \<Rightarrow> None
      | Some ct' \<Rightarrow> run_ops argsort ops ct')"

text \<open>
  The same sequence of invocations with every entry of object \<open>i\<close> taken out of the object
  dictionaries.
\<close>

definition without :: "nat \<Rightarrow> ((nat \<times> object_info) list \<times> ('f, 'e) Tracker) list
    \<Rightarrow> ((nat \<times> object_info) list \<times> ('f, 'e) Tracker) list" where
  "without i frames = map (\<lambda>(objs, t). (filter (\<lambda>x. fst x \<noteq> i) objs, t)) frames"

text \<open>Object \<open>i\<close> is not counted and its recorded side, if any, is \<open>s\<close>.\<close>

definition stays :: "nat \<Rightarrow> side \<Rightarrow> VisitorCounter \<Rightarrow> bool" where
  "stays i s c = (i \<notin> counted_ids c \<and> (\<forall>ld. last_positions c i = Some ld \<longrightarrow> position ld = s))"

text \<open>
  The matching loop of \<^const>\<open>associate\<close> on its own: the rows and columns it has used, and the
  tracker after the assignments.
\<close>

definition matching ::
  "(real list \<Rightarrow> nat list) \<Rightarrow> real \<Rightarrow> centroid list \<Rightarrow> bbox list \<Rightarrow> ('f, 'e) Tracker
     \<Rightarrow> (nat set \<times> nat set \<times> ('f, 'e) Tracker) option"
where
  "matching argsort now input_centroids input_bboxes t =
     (let object_ids = map fst (objects t);
          object_centroids = map snd (objects t);
          D = cdist object_centroids input_centroids;
          rows = argsort (map amin D);
          cols = map (\<lambda>row. argmin (D ! row)) rows
      in match_loop now D object_ids input_centroids input_bboxes (zip rows cols) ({}, {}, t))"

section \<open>The greedy matching as the specification words it\<close>




section \<open>Invariant and frame conditions of the tracker\<close>

text \<open>The order \<open>New < Scanned < Exited\<close> of the lifecycle states.\<close>

definition rank :: "state \<Rightarrow> nat" where
  "rank s = (case s of New \<Rightarrow> 0 | Scanned \<Rightarrow> 1 | Exited \<Rightarrow> 2)"

text \<open>
  What holds of every tracker that \<^const>\<open>init_tracker\<close> and the operations produce: the live
  dictionaries have the same keys, each once; a live object has a state, which is not
  Exited, a bounding box and timestamps; ids with a state are below \<^const>\<open>next_object_id\<close>;
  with re-identification on the \<^verbatim>\<open>reid\<close> attribute exists, and with it off no person id is
  ever stored.
\<close>

definition tracker_inv :: "('f, 'e) Tracker \<Rightarrow> bool" where
  "tracker_inv t =
     (distinct (map fst (objects t))
      \<and> map fst (disappeared t) = map fst (objects t)
      \<and> live t \<subseteq> dom (positions t)
      \<and> live t \<subseteq> dom (states t)
      \<and> live t \<subseteq> fst ` set (timestamps t)
      \<and> (\<forall>i \<in> dom (states t). i < next_object_id t)
      \<and> (\<forall>i \<in> live t. states t i \<noteq> Some Exited)
      \<and> (reid_enabled t \<longrightarrow> reid t \<noteq> None)
      \<and> (\<not> reid_enabled t \<longrightarrow> person_ids t = Map.empty))"

text \<open>Everything the tracker stores under id \<open>i\<close> is the same in \<open>t\<close> and \<open>t'\<close>.\<close>

definition untouched :: "nat \<Rightarrow> ('f, 'e) Tracker \<Rightarrow> ('f, 'e) Tracker \<Rightarrow> bool" where
  "untouched i t t' =
     (map_of (objects t') i = map_of (objects t) i
      \<and> map_of (disappeared t') i = map_of (disappeared t) i
      \<and> positions t' i = positions t i
      \<and> map_of (timestamps t') i = map_of (timestamps t) i
      \<and> states t' i = states t i
      \<and> entry_times t' i = entry_times t i
      \<and> exit_times t' i = exit_times t i
      \<and> person_ids t' i = person_ids t i)"

definition same_config :: "('f, 'e) Tracker \<Rightarrow> ('f, 'e) Tracker \<Rightarrow> bool" where
  "same_config t t' =
     (max_disappeared t' = max_disappeared t
      \<and> max_distance t' = max_distance t
      \<and> exit_timeout t' = exit_timeout t
      \<and> reid_enabled t' = reid_enabled t)"

text \<open>No state of \<open>t\<close> is lost or moved backwards in \<open>t'\<close>.\<close>

definition states_mono :: "('f, 'e) Tracker \<Rightarrow> ('f, 'e) Tracker \<Rightarrow> bool" where
  "states_mono t t' =
     (\<forall>i s. states t i = Some s \<longrightarrow> (\<exists>s'. states t' i = Some s' \<and> rank s \<le> rank s'))"

text \<open>
  What one missed frame does to object \<open>i\<close>, from tracker \<open>t\<close> to tracker \<open>t'\<close>: with \<open>d\<close> its
  count of missed frames in \<open>t\<close>, either \<open>d + 1\<close> exceeds \<^const>\<open>max_disappeared\<close> and the object
  has left the live set, going from Scanned to Exited with its exit time stamped and keeping
  any other state; or it is still live with count \<open>d + 1\<close> and its state unchanged.
\<close>

definition missed_once :: "real \<Rightarrow> nat \<Rightarrow> ('f, 'e) Tracker \<Rightarrow> ('f, 'e) Tracker \<Rightarrow> bool" where
  "missed_once now i t t' =
     (case map_of (disappeared t) i of
        None \<Rightarrow> False
      | Some d \<Rightarrow>
          if int (d + 1) > max_disappeared t
          then i \<notin> live t'
               \<and> states t' i = (if states t i = Some Scanned then Some Exited else states t i)
               \<and> (states t i = Some Scanned \<longrightarrow> exit_times t' i = Some now)
          else i \<in> live t' \<and> map_of (disappeared t') i = Some (d + 1)
               \<and> states t' i = states t i)"

section \<open>Concrete inputs\<close>

text \<open>
  A dictionary value as \<^verbatim>\<open>get_objects\<close> builds it for a new object with centroid \<open>c\<close>,
  and a tracker as \<^verbatim>\<open>Tracker(40, 50, 10, reid_enabled=False)\<close> constructs it. They are the
  inputs at which the theorems below are instantiated.
\<close>

definition example_info :: "centroid \<Rightarrow> object_info" where
  "example_info c =
     \<lparr>obj_centroid = c, obj_bbox = (fst c - 20, snd c - 60, fst c + 20, snd c + 60),
      obj_timestamps = \<lparr>first_seen = 0, last_seen = 0\<rparr>, obj_state = New,
      obj_entry_time = None, obj_exit_time = None, obj_person_id = None,
      obj_already_counted = False\<rparr>"

definition example_tracker :: "(unit, unit) Tracker" where
  "example_tracker = init_tracker 40 50 10 False None"

text \<open>
  A tracker with re-identification off and two live objects: object 0 in state New, seen in
  the last frame, and object 1 in state Scanned, missed for 40 frames.
\<close>

definition two_tracker :: "(unit, unit) Tracker" where
  "two_tracker =
     \<lparr>next_object_id = 2,
      objects = [(0, (100, 160)), (1, (300, 160))],
      disappeared = [(0, 0), (1, 40)],
      positions = [0 \<mapsto> (80, 100, 120, 220), 1 \<mapsto> (280, 100, 320, 220)],
      timestamps = [(0, \<lparr>first_seen = 0, last_seen = 0\<rparr>), (1, \<lparr>first_seen = 0, last_seen = 0\<rparr>)],
      states = [0 \<mapsto> New, 1 \<mapsto> Scanned],
      entry_times = Map.empty,
      exit_times = Map.empty,
      max_disappeared = 40,
      max_distance = 50,
      exit_timeout = 10,
      reid_enabled = False,
      person_ids = Map.empty,
      counted_people = {},
      reid = None\<rparr>"

text \<open>
  A tracker with three live objects in state New, none of them missed so far, and a tracker
  with re-identification on whose only object, recognised as person 1, has crossed the line.
\<close>

definition three_tracker :: "(unit, unit) Tracker" where
  "three_tracker =
     \<lparr>next_object_id = 3,
      objects = [(0, (100, 160)), (1, (300, 160)), (2, (500, 160))],
      disappeared = [(0, 0), (1, 0), (2, 0)],
      positions = [0 \<mapsto> (80, 100, 120, 220), 1 \<mapsto> (280, 100, 320, 220),
                   2 \<mapsto> (480, 100, 520, 220)],
      timestamps = [(0, \<lparr>first_seen = 0, last_seen = 0\<rparr>), (1, \<lparr>first_seen = 0, last_seen = 0\<rparr>),
                    (2, \<lparr>first_seen = 0, last_seen = 0\<rparr>)],
      states = [0 \<mapsto> New, 1 \<mapsto> New, 2 \<mapsto> New],
      entry_times = Map.empty,
      exit_times = Map.empty,
      max_disappeared = 40,
      max_distance = 50,
      exit_timeout = 10,
      reid_enabled = False,
      person_ids = Map.empty,
      counted_people = {},
      reid = None\<rparr>"

definition scanned_tracker :: "(nat, nat) Tracker" where
  "scanned_tracker =
     \<lparr>next_object_id = 1,
      objects = [(0, (140, 160))],
      disappeared = [(0, 0)],
      positions = [0 \<mapsto> (120, 100, 160, 220)],
      timestamps = [(0, \<lparr>first_seen = 1, last_seen = 2\<rparr>)],
      states = [0 \<mapsto> Scanned],
      entry_times = Map.empty,
      exit_times = Map.empty,
      max_disappeared = 40,
      max_distance = 50,
      exit_timeout = 10,
      reid_enabled = True,
      person_ids = [0 \<mapsto> 1],
      counted_people = {},
      reid = Some \<lparr>similarity_threshold = 3/5,
                    gallery = [(1, 7)],
                    person_count = 1,
                    person_id_mapping = [0 \<mapsto> 1],
                    extract_features = (\<lambda>f bb. f),
                    compare_features = (\<lambda>a b. if a = b then 1 else 0)\<rparr>\<rparr>"

text \<open>
  A re-identification object whose frames are their own feature (two frames look alike when
  they are equal), the counter of a 300 pixel wide frame with the line in the middle, and
  the frames of a walk: a person appears to the right of the line, steps over it to the
  left, and is seen no more.
\<close>

definition example_reid :: "(nat, nat) PersonReID" where
  "example_reid = init_reid (3/5) (\<lambda>f bb. f) (\<lambda>a b. if a = b then 1 else 0)"

definition example_counter :: VisitorCounter where
  "example_counter = init_counter (1/2) Left 300"

definition walk_in :: "real \<Rightarrow> (real \<times> bool \<times> detection list \<times> nat option) list" where
  "walk_in start =
     [(start, False, [(140, 100, 180, 220, 9/10)], Some 7),
      (start + 1, False, [(120, 100, 160, 220, 9/10)], Some 7)]"


section \<open>Properties of the counter\<close>

lemma count_object_counted:
  "object_id \<in> counted_ids c \<Longrightarrow> count_object (object_id, d) (c, t) = (c, t)"
  by (simp add: count_object_def)

lemma count_object_line_position:
  "line_position (fst (count_object item ct)) = line_position (fst ct)"
  by (cases item; cases ct) (simp add: count_object_def Let_def split: option.splits)

lemma count_object_cases:
  assumes "count_object (i, d) (c, t) = (c', t')"
  shows "(count c' = count c \<and> counted_ids c' = counted_ids c \<and> total_left c' = total_left c)
       \<or> (i \<notin> counted_ids c \<and> count c' = count c + 1 \<and> total_left c' = total_left c + 1
            \<and> counted_ids c' = insert i (counted_ids c)
            \<and> (\<exists>ld. last_positions c i = Some ld \<and> position ld = Right \<and> \<not> counted ld)
            \<and> side_of (line_position c) (fst (obj_centroid d)) = Left)"
  using assms
  by (auto simp add: count_object_def Let_def split: option.splits if_splits)

lemma count_object_total_right:
  "total_right (fst (count_object item ct)) = total_right (fst ct)"
  by (cases item; cases ct) (simp add: count_object_def Let_def split: option.splits)

lemma count_object_other:
  assumes "count_object (j, d) (c, t) = (c', t')" "j \<noteq> i"
  shows "last_positions c' i = last_positions c i"
  using assms
  by (auto simp add: count_object_def Let_def split: option.splits if_splits)

lemma card_new_ids:
  assumes "i \<notin> A" "insert i A \<subseteq> B" "finite (B - insert i A)"
  shows "card (B - A) = Suc (card (B - insert i A))"
proof -
  have eq: "B - A = insert i (B - insert i A)" using assms(1,2) by auto
  have "card (insert i (B - insert i A)) = Suc (card (B - insert i A))"
    by (rule card_insert_disjoint [OF assms(3)]) simp
  then show ?thesis by (simp only: eq [symmetric])
qed

lemma fold_count_object_ids:
  "fold count_object objs (c, t) = (c', t') \<Longrightarrow>
     counted_ids c \<subseteq> counted_ids c' \<and>
     counted_ids c' \<subseteq> counted_ids c \<union> fst ` set objs \<and>
     finite (counted_ids c' - counted_ids c) \<and>
     count c' = count c + card (counted_ids c' - counted_ids c)"
proof (induction objs arbitrary: c t)
  case Nil
  then show ?case by simp
next
  case (Cons item objs)
  obtain i d where item: "item = (i, d)" by (cases item)
  obtain c1 t1 where step: "count_object (i, d) (c, t) = (c1, t1)"
    by (cases "count_object (i, d) (c, t)")
  from Cons.prems item step have rest: "fold count_object objs (c1, t1) = (c', t')" by simp
  note IH = Cons.IH [OF rest]
  from count_object_cases [OF step] show ?case
  proof (elim disjE conjE)
    assume "counted_ids c1 = counted_ids c" "count c1 = count c"
    with IH item show ?thesis by auto
  next
    assume new: "i \<notin> counted_ids c" "count c1 = count c + 1"
      "counted_ids c1 = insert i (counted_ids c)"
    from IH new have sub: "insert i (counted_ids c) \<subseteq> counted_ids c'"
      and fin: "finite (counted_ids c' - insert i (counted_ids c))" by auto
    have "card (counted_ids c' - counted_ids c)
        = Suc (card (counted_ids c' - insert i (counted_ids c)))"
      by (rule card_new_ids [OF new(1) sub fin])
    moreover have "finite (counted_ids c' - counted_ids c)"
    proof -
      have "counted_ids c' - counted_ids c \<subseteq> insert i (counted_ids c' - insert i (counted_ids c))"
        by auto
      then show ?thesis using fin by (meson finite_insert finite_subset)
    qed
    ultimately show ?thesis using IH new item by auto
  qed
qed

lemma count_visitors_ids:
  assumes "count_visitors objs t c = (c', t')"
  shows "counted_ids c \<subseteq> counted_ids c' \<and>
     counted_ids c' \<subseteq> counted_ids c \<union> fst ` set objs \<and>
     finite (counted_ids c' - counted_ids c) \<and>
     count c' = count c + card (counted_ids c' - counted_ids c)"
proof (cases "objs = []")
  case True
  with assms show ?thesis by (simp add: count_visitors_def)
next
  case False
  with assms have "fold count_object objs (c, t) = (c', t')" by (simp add: count_visitors_def)
  then show ?thesis by (rule fold_count_object_ids)
qed

lemma card_diff_chain:
  assumes "A \<subseteq> B" "B \<subseteq> C" "finite (B - A)" "finite (C - B)"
  shows "card (C - A) = card (B - A) + card (C - B)"
proof -
  have eq: "C - A = (B - A) \<union> (C - B)" using assms(1,2) by auto
  have dj: "(B - A) \<inter> (C - B) = {}" by auto
  have "card ((B - A) \<union> (C - B)) = card (B - A) + card (C - B)"
    by (rule card_Un_disjoint [OF assms(3,4) dj])
  then show ?thesis by (simp only: eq [symmetric])
qed

lemma count_frames_ids:
  "counted_ids c \<subseteq> counted_ids (count_frames frames c) \<and>
   counted_ids (count_frames frames c) \<subseteq> counted_ids c \<union> (\<Union>f \<in> set frames. fst ` set (fst f)) \<and>
   finite (counted_ids (count_frames frames c) - counted_ids c) \<and>
   count (count_frames frames c) = count c + card (counted_ids (count_frames frames c) - counted_ids c)"
proof (induction frames arbitrary: c)
  case Nil
  then show ?case by simp
next
  case (Cons f frames)
  obtain objs t where f: "f = (objs, t)" by (cases f)
  obtain c1 t1 where step: "count_visitors objs t c = (c1, t1)"
    by (cases "count_visitors objs t c")
  let ?c' = "count_frames frames c1"
  have eq: "count_frames (f # frames) c = ?c'" using f step by simp
  note S = count_visitors_ids [OF step]
  note IH = Cons.IH [of c1]
  have A: "counted_ids c \<subseteq> counted_ids ?c'" using S IH by blast
  have B: "counted_ids ?c' \<subseteq> counted_ids c \<union> (\<Union>f \<in> set (f # frames). fst ` set (fst f))"
    using S IH f by auto
  have fin: "finite (counted_ids ?c' - counted_ids c)"
  proof -
    have "counted_ids ?c' - counted_ids c
       \<subseteq> (counted_ids c1 - counted_ids c) \<union> (counted_ids ?c' - counted_ids c1)" by auto
    then show ?thesis using S IH by (meson finite_UnI finite_subset)
  qed
  have "card (counted_ids ?c' - counted_ids c)
      = card (counted_ids c1 - counted_ids c) + card (counted_ids ?c' - counted_ids c1)"
    using S IH by (intro card_diff_chain) auto
  then have C: "count ?c' = count c + card (counted_ids ?c' - counted_ids c)"
    using S IH by simp
  show ?case unfolding eq using A B fin C by blast
qed

lemma fold_count_object_skip:
  "i \<in> counted_ids c \<Longrightarrow>
   fold count_object objs (c, t) = fold count_object (filter (\<lambda>x. fst x \<noteq> i) objs) (c, t)"
proof (induction objs arbitrary: c t)
  case Nil
  then show ?case by simp
next
  case (Cons item objs)
  obtain j d where item: "item = (j, d)" by (cases item)
  show ?case
  proof (cases "j = i")
    case True
    with Cons item show ?thesis by (simp add: count_object_counted)
  next
    case False
    obtain c1 t1 where step: "count_object (j, d) (c, t) = (c1, t1)"
      by (cases "count_object (j, d) (c, t)")
    from count_object_cases [OF step] Cons.prems have "i \<in> counted_ids c1" by auto
    from Cons.IH [OF this, of t1] False item step show ?thesis by simp
  qed
qed

lemma count_visitors_skip:
  assumes "i \<in> counted_ids c"
  shows "count_visitors objs t c = count_visitors (filter (\<lambda>x. fst x \<noteq> i) objs) t c"
proof -
  have "fold count_object objs (c, t) = fold count_object (filter (\<lambda>x. fst x \<noteq> i) objs) (c, t)"
    by (rule fold_count_object_skip [OF assms])
  then show ?thesis by (auto simp add: count_visitors_def)
qed

lemma count_frames_skip:
  "i \<in> counted_ids c \<Longrightarrow> count_frames frames c = count_frames (without i frames) c"
proof (induction frames arbitrary: c)
  case Nil
  then show ?case by (simp add: without_def)
next
  case (Cons f frames)
  obtain objs t where f: "f = (objs, t)" by (cases f)
  let ?c1 = "fst (count_visitors objs t c)"
  have "counted_ids c \<subseteq> counted_ids ?c1"
    using count_visitors_ids [of objs t c ?c1 "snd (count_visitors objs t c)"] by simp
  with Cons.prems have "i \<in> counted_ids ?c1" by auto
  from Cons.IH [OF this] f count_visitors_skip [OF Cons.prems, of objs t]
  show ?case by (simp add: without_def)
qed

lemma count_object_stays:
  assumes "count_object (j, d) (c, t) = (c', t')" "stays i s c"
    "j = i \<longrightarrow> side_of (line_position c) (fst (obj_centroid d)) = s"
  shows "stays i s c'"
  using assms unfolding stays_def
  by (auto simp add: count_object_def Let_def split: option.splits if_splits)

lemma fold_count_object_stays:
  "fold count_object objs (c, t) = (c', t') \<Longrightarrow> stays i s c \<Longrightarrow>
   \<forall>(j, d) \<in> set objs. j = i \<longrightarrow> side_of (line_position c) (fst (obj_centroid d)) = s \<Longrightarrow>
   stays i s c' \<and> line_position c' = line_position c"
proof (induction objs arbitrary: c t)
  case Nil
  then show ?case by simp
next
  case (Cons item objs)
  obtain j d where item: "item = (j, d)" by (cases item)
  obtain c1 t1 where step: "count_object (j, d) (c, t) = (c1, t1)"
    by (cases "count_object (j, d) (c, t)")
  have lp: "line_position c1 = line_position c"
    using count_object_line_position [of "(j, d)" "(c, t)"] step by simp
  have st: "stays i s c1"
    using count_object_stays [OF step Cons.prems(2)] Cons.prems(3) item by auto
  have rest: "fold count_object objs (c1, t1) = (c', t')" using Cons.prems(1) item step by simp
  from Cons.IH [OF rest st] Cons.prems(3) lp show ?case by auto
qed

lemma count_visitors_stays:
  assumes "count_visitors objs t c = (c', t')" "stays i s c"
    "\<forall>(j, d) \<in> set objs. j = i \<longrightarrow> side_of (line_position c) (fst (obj_centroid d)) = s"
  shows "stays i s c' \<and> line_position c' = line_position c"
proof (cases "objs = []")
  case True
  with assms show ?thesis by (simp add: count_visitors_def)
next
  case False
  with assms(1) have "fold count_object objs (c, t) = (c', t')" by (simp add: count_visitors_def)
  from fold_count_object_stays [OF this assms(2,3)] show ?thesis .
qed

lemma count_frames_stays:
  "stays i s c \<Longrightarrow>
   \<forall>(objs, t) \<in> set frames. \<forall>(j, d) \<in> set objs.
      j = i \<longrightarrow> side_of (line_position c) (fst (obj_centroid d)) = s \<Longrightarrow>
   stays i s (count_frames frames c)"
proof (induction frames arbitrary: c)
  case Nil
  then show ?case by simp
next
  case (Cons f frames)
  obtain objs t where f: "f = (objs, t)" by (cases f)
  obtain c1 t1 where step: "count_visitors objs t c = (c1, t1)"
    by (cases "count_visitors objs t c")
  have here: "\<forall>(j, d) \<in> set objs. j = i \<longrightarrow> side_of (line_position c) (fst (obj_centroid d)) = s"
    using Cons.prems(2) f by auto
  from count_visitors_stays [OF step Cons.prems(1) here]
  have st: "stays i s c1" and lp: "line_position c1 = line_position c" by auto
  have "stays i s (count_frames frames c1)"
    using Cons.prems(2) lp by (intro Cons.IH [OF st]) auto
  then show ?case using f step by simp
qed

lemma count_object_totals:
  assumes "count_object item (c, t) = (c', t')" "count c = total_left c" "total_right c = 0"
  shows "count c' = total_left c' \<and> total_right c' = 0"
proof -
  obtain i d where item: "item = (i, d)" by (cases item)
  have "total_right c' = total_right c"
    using count_object_total_right [of item "(c, t)"] assms(1) by simp
  moreover have "count c' = total_left c'"
    using count_object_cases [of i d c t c' t'] assms(1,2) item by auto
  ultimately show ?thesis using assms(3) by simp
qed

lemma fold_count_object_totals:
  "fold count_object objs (c, t) = (c', t') \<Longrightarrow> count c = total_left c \<Longrightarrow> total_right c = 0
   \<Longrightarrow> count c' = total_left c' \<and> total_right c' = 0"
proof (induction objs arbitrary: c t)
  case Nil
  then show ?case by simp
next
  case (Cons item objs)
  obtain c1 t1 where step: "count_object item (c, t) = (c1, t1)"
    by (cases "count_object item (c, t)")
  from count_object_totals [OF step Cons.prems(2,3)]
  have a: "count c1 = total_left c1" and b: "total_right c1 = 0" by auto
  have r: "fold count_object objs (c1, t1) = (c', t')" using Cons.prems(1) step by simp
  show ?case by (rule Cons.IH [OF r a b])
qed

lemma count_visitors_totals:
  assumes "count c = total_left c" "total_right c = 0"
  shows "count (fst (count_visitors objs t c)) = total_left (fst (count_visitors objs t c))
       \<and> total_right (fst (count_visitors objs t c)) = 0"
proof (cases "objs = []")
  case True
  with assms show ?thesis by (simp add: count_visitors_def)
next
  case False
  obtain c' t' where r: "fold count_object objs (c, t) = (c', t')"
    by (cases "fold count_object objs (c, t)")
  from fold_count_object_totals [OF r assms] r False show ?thesis
    by (simp add: count_visitors_def)
qed

lemma count_frames_totals:
  "count c = total_left c \<Longrightarrow> total_right c = 0 \<Longrightarrow>
   count (count_frames frames c) = total_left (count_frames frames c)
   \<and> total_right (count_frames frames c) = 0"
proof (induction frames arbitrary: c)
  case Nil
  then show ?case by simp
next
  case (Cons f frames)
  obtain objs t where f: "f = (objs, t)" by (cases f)
  from count_visitors_totals [OF Cons.prems, of objs t]
  have "count (fst (count_visitors objs t c)) = total_left (fst (count_visitors objs t c))"
       "total_right (fst (count_visitors objs t c)) = 0" by auto
  from Cons.IH [OF this] f show ?case by simp
qed

lemma ex_line: "line_position (init_counter (1/2) Right 300) = 150"
  by (simp add: init_counter_def py_int_def)

lemma ex_run:
  "count_frames
     [([(0, example_info (200, 160))], example_tracker),
      ([(0, example_info (100, 160))], example_tracker)]
     (init_counter (1/2) Right 300)
   = \<lparr>line_position = 150, direction = Left, count = 1, total_left = 1, total_right = 0,
      last_positions = [0 \<mapsto> \<lparr>position = Left, counted = True\<rparr>], counted_ids = {0},
      debug = True\<rparr>"
  by (simp add: init_counter_def py_int_def count_visitors_def count_object_def side_of_def
      example_info_def example_tracker_def mark_as_scanned_def live_def init_tracker_def)

lemma count_frames_only:
  assumes "\<forall>f \<in> set frames. fst ` set (fst f) \<subseteq> {i}"
  shows "count (count_frames frames c) \<le> count c + 1"
proof -
  let ?N = "counted_ids (count_frames frames c) - counted_ids c"
  have "(\<Union>f \<in> set frames. fst ` set (fst f)) \<subseteq> {i}" using assms by auto
  with count_frames_ids [of c frames] have sub: "?N \<subseteq> {i}" by blast
  have "card ?N \<le> card {i}" by (rule card_mono [OF _ sub]) simp
  with count_frames_ids [of c frames] show ?thesis by simp
qed

section \<open>Properties of the tracker\<close>

lemma deregister_live:
  assumes "tracker_inv t" "object_id \<in> live t"
  shows "\<exists>s. states t object_id = Some s \<and>
     deregister now object_id t =
       Some (t\<lparr>states := (if s = Scanned then (states t)(object_id \<mapsto> Exited) else states t),
               exit_times := (if s = Scanned then (exit_times t)(object_id \<mapsto> now) else exit_times t),
               counted_people :=
                 (if s = Scanned \<and> reid_enabled t
                  then (case person_ids t object_id of
                          Some pid \<Rightarrow> insert pid (counted_people t)
                        | None \<Rightarrow> counted_people t)
                  else counted_people t),
               objects := AList.delete object_id (objects t),
               disappeared := AList.delete object_id (disappeared t),
               positions := (positions t)(object_id := None)\<rparr>)"
proof -
  from assms obtain s where s: "states t object_id = Some s"
    by (auto simp add: tracker_inv_def)
  have d: "object_id \<in> fst ` set (disappeared t)"
  proof -
    have "fst ` set (disappeared t) = set (map fst (disappeared t))" by simp
    also have "\<dots> = set (map fst (objects t))" using assms(1) by (simp add: tracker_inv_def)
    finally show ?thesis using assms(2) by (simp add: live_def)
  qed
  have p: "object_id \<in> dom (positions t)" using assms by (auto simp add: tracker_inv_def)
  have l: "object_id \<in> fst ` set (objects t)" using assms(2) by (simp add: live_def)
  show ?thesis
    using s d p l
    by (cases "person_ids t object_id") (simp_all add: deregister_def Let_def)
qed


lemma live_delete:
  "fst ` set (AList.delete k al) = fst ` set al - {k}"
  by (induction al) (auto simp add: AList.delete_eq)

lemma tracker_invI:
  assumes "distinct (map fst (objects t))"
    "map fst (disappeared t) = map fst (objects t)"
    "live t \<subseteq> dom (positions t)" "live t \<subseteq> dom (states t)"
    "live t \<subseteq> fst ` set (timestamps t)"
    "\<And>i. i \<in> dom (states t) \<Longrightarrow> i < next_object_id t"
    "\<And>i. i \<in> live t \<Longrightarrow> states t i \<noteq> Some Exited"
    "reid_enabled t \<Longrightarrow> reid t \<noteq> None"
    "\<not> reid_enabled t \<Longrightarrow> person_ids t = Map.empty"
  shows "tracker_inv t"
  using assms unfolding tracker_inv_def by blast

lemma tracker_invD:
  assumes "tracker_inv t"
  shows "distinct (map fst (objects t))"
    "map fst (disappeared t) = map fst (objects t)"
    "live t \<subseteq> dom (positions t)" "live t \<subseteq> dom (states t)"
    "live t \<subseteq> fst ` set (timestamps t)"
    "\<And>i. i \<in> dom (states t) \<Longrightarrow> i < next_object_id t"
    "\<And>i. i \<in> live t \<Longrightarrow> states t i \<noteq> Some Exited"
    "reid_enabled t \<Longrightarrow> reid t \<noteq> None"
    "\<not> reid_enabled t \<Longrightarrow> person_ids t = Map.empty"
  using assms unfolding tracker_inv_def by blast+

lemma deregister_inv:
  assumes inv: "tracker_inv t" and lv: "object_id \<in> live t"
    and res: "deregister now object_id t = Some t'"
  shows "tracker_inv t'"
proof -
  from deregister_live [OF inv lv, of now] res obtain s where
    s: "states t object_id = Some s" and
    t': "t' = t\<lparr>states := (if s = Scanned then (states t)(object_id \<mapsto> Exited) else states t),
               exit_times := (if s = Scanned then (exit_times t)(object_id \<mapsto> now) else exit_times t),
               counted_people :=
                 (if s = Scanned \<and> reid_enabled t
                  then (case person_ids t object_id of
                          Some pid \<Rightarrow> insert pid (counted_people t)
                        | None \<Rightarrow> counted_people t)
                  else counted_people t),
               objects := AList.delete object_id (objects t),
               disappeared := AList.delete object_id (disappeared t),
               positions := (positions t)(object_id := None)\<rparr>"
    by auto
  note D = tracker_invD [OF inv]
  have lv': "live t' = live t - {object_id}" by (simp add: t' live_def live_delete)
  have dm: "dom (states t') = dom (states t)" using s by (auto simp add: t')
  show ?thesis
  proof (rule tracker_invI)
    show "distinct (map fst (objects t'))" using D(1) by (simp add: t' distinct_delete)
    show "map fst (disappeared t') = map fst (objects t')"
      using D(2) by (simp add: t' delete_keys)
    show "live t' \<subseteq> dom (positions t')" unfolding lv' using D(3) by (auto simp add: t')
    show "live t' \<subseteq> dom (states t')" unfolding lv' dm using D(4) by auto
    show "live t' \<subseteq> fst ` set (timestamps t')" unfolding lv' using D(5) by (auto simp add: t')
    show "i < next_object_id t'" if "i \<in> dom (states t')" for i
      using that D(6) [of i] unfolding dm by (simp add: t')
    show "states t' i \<noteq> Some Exited" if "i \<in> live t'" for i
      using that D(7) [of i] unfolding lv' by (auto simp add: t')
    show "reid t' \<noteq> None" if "reid_enabled t'" using that D(8) by (simp add: t')
    show "person_ids t' = Map.empty" if "\<not> reid_enabled t'" using that D(9) by (simp add: t')
  qed
qed


lemma update_fresh: "k \<notin> fst ` set al \<Longrightarrow> AList.update k v al = al @ [(k, v)]"
  by (induction al) auto

lemma map_of_None_iff: "map_of al k = None \<longleftrightarrow> k \<notin> fst ` set al"
  by (simp add: map_of_eq_None_iff)

lemma untouched_refl: "untouched i t t"
  by (simp add: untouched_def)

lemma untouched_trans: "untouched i t t' \<Longrightarrow> untouched i t' t'' \<Longrightarrow> untouched i t t''"
  by (simp add: untouched_def)

lemma untouched_live: "untouched i t t' \<Longrightarrow> i \<in> live t' \<longleftrightarrow> i \<in> live t"
proof -
  assume "untouched i t t'"
  then have "map_of (objects t') i = map_of (objects t) i" by (simp add: untouched_def)
  then have "(map_of (objects t') i = None) = (map_of (objects t) i = None)" by simp
  then show ?thesis unfolding map_of_None_iff live_def by blast
qed

lemma same_config_refl: "same_config t t"
  by (simp add: same_config_def)

lemma same_config_trans: "same_config t t' \<Longrightarrow> same_config t' t'' \<Longrightarrow> same_config t t''"
  by (simp add: same_config_def)

lemma states_mono_refl: "states_mono t t"
  by (auto simp add: states_mono_def)

lemma states_mono_trans: "states_mono t t' \<Longrightarrow> states_mono t' t'' \<Longrightarrow> states_mono t t''"
  unfolding states_mono_def by (meson le_trans)

lemma next_not_live: "tracker_inv t \<Longrightarrow> next_object_id t \<notin> live t"
  using tracker_invD(4,6) [of t] by (meson less_irrefl subsetD)

lemma register_reid_off:
  assumes "\<not> reid_enabled t \<or> frame = None"
  shows "register now c bb frame t =
     Some (next_object_id t,
       t\<lparr>objects := AList.update (next_object_id t) c (objects t),
         positions := (positions t)(next_object_id t \<mapsto> bb),
         disappeared := AList.update (next_object_id t) 0 (disappeared t),
         timestamps := AList.update (next_object_id t) \<lparr>first_seen = now, last_seen = now\<rparr>
                         (timestamps t),
         states := (states t)(next_object_id t \<mapsto> New),
         next_object_id := next_object_id t + 1\<rparr>)"
  using assms by (auto simp add: register_def Let_def)

lemma register_reid_on:
  assumes "reid_enabled t" "frame = Some fr" "reid t = Some r"
    "identify_person fr bb (next_object_id t) r = ((pid, is_new), r')"
  shows "register now c bb frame t =
     Some (next_object_id t,
       t\<lparr>objects := AList.update (next_object_id t) c (objects t),
         positions := (positions t)(next_object_id t \<mapsto> bb),
         disappeared := AList.update (next_object_id t) 0 (disappeared t),
         timestamps := AList.update (next_object_id t) \<lparr>first_seen = now, last_seen = now\<rparr>
                         (timestamps t),
         states := (states t)(next_object_id t \<mapsto>
                      (if pid \<in> counted_people t then Scanned else New)),
         reid := Some r',
         person_ids := (person_ids t)(next_object_id t \<mapsto> pid),
         entry_times := (if pid \<in> counted_people t
                         then (entry_times t)(next_object_id t \<mapsto> now) else entry_times t),
         next_object_id := next_object_id t + 1\<rparr>)"
  using assms by (simp add: register_def Let_def mark_as_counted_def)


lemma register_form:
  assumes "reid_enabled t \<longrightarrow> reid t \<noteq> None"
  shows "\<exists>st rr pp ee.
     register now c bb frame t =
       Some (next_object_id t,
         t\<lparr>objects := AList.update (next_object_id t) c (objects t),
           positions := (positions t)(next_object_id t \<mapsto> bb),
           disappeared := AList.update (next_object_id t) 0 (disappeared t),
           timestamps := AList.update (next_object_id t) \<lparr>first_seen = now, last_seen = now\<rparr>
                           (timestamps t),
           states := (states t)(next_object_id t \<mapsto> st),
           reid := rr,
           person_ids := pp,
           entry_times := ee,
           next_object_id := next_object_id t + 1\<rparr>)
     \<and> (st = New \<or> st = Scanned)
     \<and> (reid_enabled t \<longrightarrow> rr \<noteq> None)
     \<and> (\<not> reid_enabled t \<longrightarrow> pp = person_ids t)
     \<and> (\<forall>i. i \<noteq> next_object_id t \<longrightarrow> pp i = person_ids t i \<and> ee i = entry_times t i)"
proof (cases "\<not> reid_enabled t \<or> frame = None")
  case True
  show ?thesis
    apply (rule exI [of _ New], rule exI [of _ "reid t"], rule exI [of _ "person_ids t"],
        rule exI [of _ "entry_times t"])
    using assms by (simp add: register_reid_off [OF True])
next
  case False
  then obtain fr r where en: "reid_enabled t" and fr: "frame = Some fr" and r: "reid t = Some r"
    using assms by auto
  obtain pid is_new r' where idp: "identify_person fr bb (next_object_id t) r = ((pid, is_new), r')"
    by (metis prod.exhaust)
  show ?thesis
    apply (rule exI [of _ "if pid \<in> counted_people t then Scanned else New"],
        rule exI [of _ "Some r'"],
        rule exI [of _ "(person_ids t)(next_object_id t \<mapsto> pid)"],
        rule exI [of _ "if pid \<in> counted_people t
                         then (entry_times t)(next_object_id t \<mapsto> now) else entry_times t"])
    using en by (simp add: register_reid_on [OF en fr r idp])
qed


lemma register_props:
  assumes inv: "tracker_inv t"
  obtains t' where "register now c bb frame t = Some (next_object_id t, t')"
    "tracker_inv t'" "next_object_id t' = Suc (next_object_id t)"
    "objects t' = objects t @ [(next_object_id t, c)]"
    "disappeared t' = disappeared t @ [(next_object_id t, 0)]"
    "positions t' = (positions t)(next_object_id t \<mapsto> bb)"
    "same_config t t'" "states_mono t t'"
    "\<And>i. i \<noteq> next_object_id t \<Longrightarrow> untouched i t t'"
    "exit_times t' = exit_times t" "counted_people t' = counted_people t"
    "states t' (next_object_id t) = Some New \<or> states t' (next_object_id t) = Some Scanned"
proof -
  note D = tracker_invD [OF inv]
  let ?n = "next_object_id t"
  from register_form [of t now c bb frame] D(8)
  obtain st rr pp ee where
    reg: "register now c bb frame t =
       Some (?n,
         t\<lparr>objects := AList.update ?n c (objects t),
           positions := (positions t)(?n \<mapsto> bb),
           disappeared := AList.update ?n 0 (disappeared t),
           timestamps := AList.update ?n \<lparr>first_seen = now, last_seen = now\<rparr> (timestamps t),
           states := (states t)(?n \<mapsto> st),
           reid := rr,
           person_ids := pp,
           entry_times := ee,
           next_object_id := ?n + 1\<rparr>)"
    and st: "st = New \<or> st = Scanned"
    and rr: "reid_enabled t \<longrightarrow> rr \<noteq> None"
    and pp: "\<not> reid_enabled t \<longrightarrow> pp = person_ids t"
    and oth: "\<forall>i. i \<noteq> ?n \<longrightarrow> pp i = person_ids t i \<and> ee i = entry_times t i"
    by blast
  define t' where "t' = t\<lparr>objects := AList.update ?n c (objects t),
           positions := (positions t)(?n \<mapsto> bb),
           disappeared := AList.update ?n 0 (disappeared t),
           timestamps := AList.update ?n \<lparr>first_seen = now, last_seen = now\<rparr> (timestamps t),
           states := (states t)(?n \<mapsto> st),
           reid := rr,
           person_ids := pp,
           entry_times := ee,
           next_object_id := ?n + 1\<rparr>"
  have nl: "?n \<notin> fst ` set (objects t)" using next_not_live [OF inv] by (simp add: live_def)
  have nd: "?n \<notin> fst ` set (disappeared t)"
  proof -
    have "fst ` set (disappeared t) = set (map fst (disappeared t))" by simp
    also have "\<dots> = fst ` set (objects t)" unfolding D(2) by simp
    finally show ?thesis using nl by simp
  qed
  have ns: "states t ?n = None" using D(6) [of ?n] by auto
  have o: "objects t' = objects t @ [(?n, c)]" by (simp add: t'_def update_fresh [OF nl])
  have d: "disappeared t' = disappeared t @ [(?n, 0)]" by (simp add: t'_def update_fresh [OF nd])
  have lv: "live t' = insert ?n (live t)" by (auto simp add: live_def o)
  have i': "tracker_inv t'"
  proof (rule tracker_invI)
    show "distinct (map fst (objects t'))" using D(1) nl by (simp add: o)
    show "map fst (disappeared t') = map fst (objects t')" using D(2) by (simp add: o d)
    show "live t' \<subseteq> dom (positions t')" unfolding lv using D(3) by (auto simp add: t'_def)
    show "live t' \<subseteq> dom (states t')" unfolding lv using D(4) by (auto simp add: t'_def)
    show "live t' \<subseteq> fst ` set (timestamps t')" unfolding lv using D(5)
      by (auto simp add: t'_def dom_update)
    show "i < next_object_id t'" if "i \<in> dom (states t')" for i
      using that D(6) [of i] by (auto simp add: t'_def less_Suc_eq split: if_splits)
    show "states t' i \<noteq> Some Exited" if "i \<in> live t'" for i
      using that D(7) [of i] st unfolding lv by (auto simp add: t'_def)
    show "reid t' \<noteq> None" if "reid_enabled t'" using that rr by (simp add: t'_def)
    show "person_ids t' = Map.empty" if "\<not> reid_enabled t'"
      using that pp D(9) by (simp add: t'_def)
  qed
  have sm: "states_mono t t'" using ns by (auto simp add: states_mono_def t'_def)
  have un: "untouched i t t'" if "i \<noteq> ?n" for i
    using that oth by (simp add: untouched_def t'_def update_conv')
  show ?thesis
  proof (rule that [of t'])
    show "register now c bb frame t = Some (?n, t')" using reg by (simp add: t'_def)
    show "tracker_inv t'" by (rule i')
    show "next_object_id t' = Suc ?n" by (simp add: t'_def)
    show "objects t' = objects t @ [(?n, c)]" by (rule o)
    show "disappeared t' = disappeared t @ [(?n, 0)]" by (rule d)
    show "positions t' = (positions t)(?n \<mapsto> bb)" by (simp add: t'_def)
    show "same_config t t'" by (simp add: same_config_def t'_def)
    show "states_mono t t'" by (rule sm)
    show "untouched i t t'" if "i \<noteq> ?n" for i by (rule un [OF that])
    show "exit_times t' = exit_times t" by (simp add: t'_def)
    show "counted_people t' = counted_people t" by (simp add: t'_def)
    show "states t' ?n = Some New \<or> states t' ?n = Some Scanned" using st by (simp add: t'_def)
  qed
qed


lemma live_disappeared: "tracker_inv t \<Longrightarrow> fst ` set (disappeared t) = live t"
proof -
  assume "tracker_inv t"
  then have "map fst (disappeared t) = map fst (objects t)" by (rule tracker_invD(2))
  then have "set (map fst (disappeared t)) = set (map fst (objects t))" by simp
  then show ?thesis by (simp add: live_def)
qed

lemma deregister_props:
  assumes inv: "tracker_inv t" and lv: "object_id \<in> live t"
  obtains t' where "deregister now object_id t = Some t'"
    "tracker_inv t'" "next_object_id t' = next_object_id t"
    "objects t' = AList.delete object_id (objects t)"
    "live t' = live t - {object_id}"
    "same_config t t'" "states_mono t t'"
    "\<And>i. i \<noteq> object_id \<Longrightarrow> untouched i t t'"
    "states t' object_id =
       (if states t object_id = Some Scanned then Some Exited else states t object_id)"
    "exit_times t' object_id =
       (if states t object_id = Some Scanned then Some now else exit_times t object_id)"
    "counted_people t' =
       (if states t object_id = Some Scanned \<and> reid_enabled t
        then counted_people t \<union> set_option (person_ids t object_id) else counted_people t)"
proof -
  from deregister_live [OF inv lv, of now] obtain s where
    s: "states t object_id = Some s" and
    res: "deregister now object_id t =
       Some (t\<lparr>states := (if s = Scanned then (states t)(object_id \<mapsto> Exited) else states t),
               exit_times := (if s = Scanned then (exit_times t)(object_id \<mapsto> now) else exit_times t),
               counted_people :=
                 (if s = Scanned \<and> reid_enabled t
                  then (case person_ids t object_id of
                          Some pid \<Rightarrow> insert pid (counted_people t)
                        | None \<Rightarrow> counted_people t)
                  else counted_people t),
               objects := AList.delete object_id (objects t),
               disappeared := AList.delete object_id (disappeared t),
               positions := (positions t)(object_id := None)\<rparr>)" (is "_ = Some ?t'")
    by blast
  show ?thesis
  proof (rule that [of ?t'])
    show "deregister now object_id t = Some ?t'" by (rule res)
    show "tracker_inv ?t'" by (rule deregister_inv [OF inv lv res])
    show "next_object_id ?t' = next_object_id t" by simp
    show "objects ?t' = AList.delete object_id (objects t)" by simp
    show "live ?t' = live t - {object_id}" by (simp add: live_def live_delete)
    show "same_config t ?t'" by (simp add: same_config_def)
    show "states_mono t ?t'" using s by (auto simp add: states_mono_def rank_def)
    show "untouched i t ?t'" if "i \<noteq> object_id" for i
      using that by (simp add: untouched_def)
    show "states ?t' object_id =
       (if states t object_id = Some Scanned then Some Exited else states t object_id)"
      using s by simp
    show "exit_times ?t' object_id =
       (if states t object_id = Some Scanned then Some now else exit_times t object_id)"
      using s by simp
    show "counted_people ?t' =
       (if states t object_id = Some Scanned \<and> reid_enabled t
        then counted_people t \<union> set_option (person_ids t object_id) else counted_people t)"
      using s by (cases "person_ids t object_id") auto
  qed
qed

lemma bump_inv:
  assumes inv: "tracker_inv t" and lv: "object_id \<in> live t"
  shows "tracker_inv (t\<lparr>disappeared := AList.update object_id d (disappeared t)\<rparr>)"
    (is "tracker_inv ?t'")
proof -
  note D = tracker_invD [OF inv]
  have k: "object_id \<in> set (map fst (disappeared t))"
    using live_disappeared [OF inv] lv by simp
  have keys: "map fst (disappeared ?t') = map fst (disappeared t)"
    using k by (simp add: update_keys)
  have lv': "live ?t' = live t" by (simp add: live_def)
  show ?thesis
  proof (rule tracker_invI)
    show "distinct (map fst (objects ?t'))" using D(1) by simp
    show "map fst (disappeared ?t') = map fst (objects ?t')" using keys D(2) by simp
    show "live ?t' \<subseteq> dom (positions ?t')" unfolding lv' using D(3) by simp
    show "live ?t' \<subseteq> dom (states ?t')" unfolding lv' using D(4) by simp
    show "live ?t' \<subseteq> fst ` set (timestamps ?t')" unfolding lv' using D(5) by simp
    show "i < next_object_id ?t'" if "i \<in> dom (states ?t')" for i
      using that D(6) [of i] by simp
    show "states ?t' i \<noteq> Some Exited" if "i \<in> live ?t'" for i
      using that D(7) [of i] unfolding lv' by simp
    show "reid ?t' \<noteq> None" if "reid_enabled ?t'" using that D(8) by simp
    show "person_ids ?t' = Map.empty" if "\<not> reid_enabled ?t'" using that D(9) by simp
  qed
qed

lemma mark_disappeared_props:
  assumes inv: "tracker_inv t" and lv: "object_id \<in> live t"
  obtains d t' where "map_of (disappeared t) object_id = Some d"
    "mark_disappeared now object_id t = Some t'"
    "tracker_inv t'" "next_object_id t' = next_object_id t"
    "same_config t t'" "states_mono t t'"
    "\<And>i. i \<noteq> object_id \<Longrightarrow> untouched i t t'"
    "int (d + 1) > max_disappeared t \<Longrightarrow>
       live t' = live t - {object_id}
       \<and> objects t' = AList.delete object_id (objects t)
       \<and> states t' object_id =
           (if states t object_id = Some Scanned then Some Exited else states t object_id)
       \<and> exit_times t' object_id =
           (if states t object_id = Some Scanned then Some now else exit_times t object_id)"
    "\<not> int (d + 1) > max_disappeared t \<Longrightarrow>
       objects t' = objects t \<and> map_of (disappeared t') object_id = Some (d + 1)
       \<and> states t' = states t \<and> exit_times t' = exit_times t"
proof -
  have "object_id \<in> fst ` set (disappeared t)" using live_disappeared [OF inv] lv by simp
  then have "map_of (disappeared t) object_id \<noteq> None"
    unfolding map_of_None_iff by simp
  then obtain d where d: "map_of (disappeared t) object_id = Some d" by blast
  define t1 where "t1 = t\<lparr>disappeared := AList.update object_id (d + 1) (disappeared t)\<rparr>"
  have inv1: "tracker_inv t1" unfolding t1_def by (rule bump_inv [OF inv lv])
  have lv1: "object_id \<in> live t1" using lv by (simp add: live_def t1_def)
  have un1: "untouched i t t1" if "i \<noteq> object_id" for i
    using that by (simp add: untouched_def update_conv' t1_def)
  have f1: "objects t1 = objects t" "states t1 = states t" "exit_times t1 = exit_times t"
    "next_object_id t1 = next_object_id t" "live t1 = live t"
    "map_of (disappeared t1) object_id = Some (d + 1)"
    by (simp_all add: t1_def live_def update_conv')
  have c1: "same_config t t1" by (simp add: same_config_def t1_def)
  have m1: "states_mono t t1" unfolding states_mono_def f1 by simp
  show ?thesis
  proof (cases "int (d + 1) > max_disappeared t")
    case True
    then have md: "mark_disappeared now object_id t = deregister now object_id t1"
      using d by (simp add: mark_disappeared_def Let_def t1_def)
    from deregister_props [OF inv1 lv1, of now] obtain t' where
      P: "deregister now object_id t1 = Some t'"
        "tracker_inv t'" "next_object_id t' = next_object_id t1"
        "objects t' = AList.delete object_id (objects t1)"
        "live t' = live t1 - {object_id}"
        "same_config t1 t'" "states_mono t1 t'"
        "\<And>i. i \<noteq> object_id \<Longrightarrow> untouched i t1 t'"
        "states t' object_id =
           (if states t1 object_id = Some Scanned then Some Exited else states t1 object_id)"
        "exit_times t' object_id =
           (if states t1 object_id = Some Scanned then Some now else exit_times t1 object_id)"
      by metis
    show ?thesis
    proof (rule that [of d t'])
      show "map_of (disappeared t) object_id = Some d" by (rule d)
      show "mark_disappeared now object_id t = Some t'" using md P(1) by simp
      show "tracker_inv t'" by (rule P(2))
      show "next_object_id t' = next_object_id t" using P(3) f1(4) by simp
      show "same_config t t'" using c1 P(6) by (rule same_config_trans)
      show "states_mono t t'" using m1 P(7) by (rule states_mono_trans)
      show "untouched i t t'" if "i \<noteq> object_id" for i
        by (rule untouched_trans [OF un1 [OF that] P(8) [OF that]])
      show "live t' = live t - {object_id}
       \<and> objects t' = AList.delete object_id (objects t)
       \<and> states t' object_id =
           (if states t object_id = Some Scanned then Some Exited else states t object_id)
       \<and> exit_times t' object_id =
           (if states t object_id = Some Scanned then Some now else exit_times t object_id)"
        using P(4,5,9,10) unfolding f1 by (intro conjI)
      show "objects t' = objects t \<and> map_of (disappeared t') object_id = Some (d + 1)
       \<and> states t' = states t \<and> exit_times t' = exit_times t"
        if "\<not> int (d + 1) > max_disappeared t"
        using that True by simp
    qed
  next
    case False
    then have md: "mark_disappeared now object_id t = Some t1"
      using d by (simp add: mark_disappeared_def Let_def t1_def)
    show ?thesis
    proof (rule that [of d t1])
      show "map_of (disappeared t) object_id = Some d" by (rule d)
      show "mark_disappeared now object_id t = Some t1" by (rule md)
      show "tracker_inv t1" by (rule inv1)
      show "next_object_id t1 = next_object_id t" by (rule f1)
      show "same_config t t1" by (rule c1)
      show "states_mono t t1" by (rule m1)
      show "untouched i t t1" if "i \<noteq> object_id" for i by (rule un1 [OF that])
      show "live t1 = live t - {object_id}
       \<and> objects t1 = AList.delete object_id (objects t)
       \<and> states t1 object_id =
           (if states t object_id = Some Scanned then Some Exited else states t object_id)
       \<and> exit_times t1 object_id =
           (if states t object_id = Some Scanned then Some now else exit_times t object_id)"
        if "int (d + 1) > max_disappeared t"
        using that False by simp
      show "objects t1 = objects t \<and> map_of (disappeared t1) object_id = Some (d + 1)
       \<and> states t1 = states t \<and> exit_times t1 = exit_times t"
        using f1 by simp
    qed
  qed
qed

lemma nth_opt_Some: "i < length xs \<Longrightarrow> nth_opt xs i = Some (xs ! i)"
  by (simp add: nth_opt_def)

lemma assign_props:
  assumes inv: "tracker_inv t" and ids: "object_ids = map fst (objects t)"
    and row: "row < length object_ids"
    and col: "col < length input_centroids" "col < length input_bboxes"
  obtains t' where
    "assign now object_ids input_centroids input_bboxes (row, col) t = Some t'"
    "tracker_inv t'" "map fst (objects t') = map fst (objects t)"
    "next_object_id t' = next_object_id t"
    "same_config t t'" "states t' = states t" "exit_times t' = exit_times t"
    "counted_people t' = counted_people t"
    "\<And>i. i \<noteq> object_ids ! row \<Longrightarrow> untouched i t t'"
    "map_of (objects t') (object_ids ! row) = Some (input_centroids ! col)"
    "positions t' (object_ids ! row) = Some (input_bboxes ! col)"
    "map_of (disappeared t') (object_ids ! row) = Some 0"
    "\<exists>ts. map_of (timestamps t) (object_ids ! row) = Some ts
        \<and> map_of (timestamps t') (object_ids ! row) = Some (ts\<lparr>last_seen := now\<rparr>)"
proof -
  note D = tracker_invD [OF inv]
  define oid where "oid = object_ids ! row"
  have lv: "oid \<in> live t" using row ids by (simp add: live_def oid_def)
  then have "oid \<in> fst ` set (timestamps t)" using D(5) by blast
  then have "map_of (timestamps t) oid \<noteq> None" unfolding map_of_None_iff by simp
  then obtain ts where ts: "map_of (timestamps t) oid = Some ts" by blast
  define t' where "t' = t\<lparr>objects := AList.update oid (input_centroids ! col) (objects t),
                          positions := (positions t)(oid \<mapsto> input_bboxes ! col),
                          disappeared := AList.update oid 0 (disappeared t),
                          timestamps := AList.update oid (ts\<lparr>last_seen := now\<rparr>) (timestamps t)\<rparr>"
  have res: "assign now object_ids input_centroids input_bboxes (row, col) t = Some t'"
    using row col ts by (simp add: assign_def nth_opt_Some oid_def [symmetric] t'_def)
  have ko: "oid \<in> set (map fst (objects t))" using lv by (simp add: live_def)
  have kd: "oid \<in> set (map fst (disappeared t))" using ko D(2) by simp
  have keys: "map fst (objects t') = map fst (objects t)"
    using ko by (simp add: t'_def update_keys)
  have keysd: "map fst (disappeared t') = map fst (disappeared t)"
    using kd by (simp add: t'_def update_keys)
  have lv': "live t' = live t"
  proof -
    have "set (map fst (objects t')) = set (map fst (objects t))" by (simp only: keys)
    then show ?thesis by (simp add: live_def)
  qed
  have f: "states t' = states t" "next_object_id t' = next_object_id t"
    "reid_enabled t' = reid_enabled t" "reid t' = reid t" "person_ids t' = person_ids t"
    by (simp_all add: t'_def)
  have i': "tracker_inv t'"
  proof (rule tracker_invI)
    show "distinct (map fst (objects t'))" unfolding keys by (rule D(1))
    show "map fst (disappeared t') = map fst (objects t')" unfolding keys keysd by (rule D(2))
    show "live t' \<subseteq> dom (positions t')" unfolding lv' using D(3) by (auto simp add: t'_def)
    show "live t' \<subseteq> dom (states t')" unfolding lv' f by (rule D(4))
    show "live t' \<subseteq> fst ` set (timestamps t')" unfolding lv' using D(5)
      by (auto simp add: t'_def dom_update)
    show "i < next_object_id t'" if "i \<in> dom (states t')" for i
      using that D(6) [of i] unfolding f by simp
    show "states t' i \<noteq> Some Exited" if "i \<in> live t'" for i
      using that D(7) [of i] unfolding lv' f by simp
    show "reid t' \<noteq> None" if "reid_enabled t'" using that D(8) unfolding f by simp
    show "person_ids t' = Map.empty" if "\<not> reid_enabled t'" using that D(9) unfolding f by simp
  qed
  show ?thesis
  proof (rule that [of t'])
    show "assign now object_ids input_centroids input_bboxes (row, col) t = Some t'" by (rule res)
    show "tracker_inv t'" by (rule i')
    show "map fst (objects t') = map fst (objects t)" by (rule keys)
    show "next_object_id t' = next_object_id t" by (rule f)
    show "same_config t t'" by (simp add: same_config_def t'_def)
    show "states t' = states t" by (rule f)
    show "exit_times t' = exit_times t" by (simp add: t'_def)
    show "counted_people t' = counted_people t" by (simp add: t'_def)
    show "untouched i t t'" if "i \<noteq> object_ids ! row" for i
      using that by (simp add: untouched_def t'_def update_conv' oid_def)
    show "map_of (objects t') (object_ids ! row) = Some (input_centroids ! col)"
      by (simp add: t'_def update_conv' oid_def)
    show "positions t' (object_ids ! row) = Some (input_bboxes ! col)"
      by (simp add: t'_def oid_def)
    show "map_of (disappeared t') (object_ids ! row) = Some 0"
      by (simp add: t'_def update_conv' oid_def)
    show "\<exists>ts. map_of (timestamps t) (object_ids ! row) = Some ts
        \<and> map_of (timestamps t') (object_ids ! row) = Some (ts\<lparr>last_seen := now\<rparr>)"
      using ts by (simp add: t'_def update_conv' oid_def)
  qed
qed


lemma missed_once_step:
  assumes inv: "tracker_inv t" and lv: "i \<in> live t"
    and res: "mark_disappeared now i t = Some t'"
  shows "missed_once now i t t'"
proof (rule mark_disappeared_props [OF inv lv, of now])
  fix d t''
  assume d: "map_of (disappeared t) i = Some d"
    and r: "mark_disappeared now i t = Some t''"
    and big: "int (d + 1) > max_disappeared t \<Longrightarrow>
       live t'' = live t - {i}
       \<and> objects t'' = AList.delete i (objects t)
       \<and> states t'' i = (if states t i = Some Scanned then Some Exited else states t i)
       \<and> exit_times t'' i = (if states t i = Some Scanned then Some now else exit_times t i)"
    and small: "\<not> int (d + 1) > max_disappeared t \<Longrightarrow>
       objects t'' = objects t \<and> map_of (disappeared t'') i = Some (d + 1)
       \<and> states t'' = states t \<and> exit_times t'' = exit_times t"
  from r res have eq: "t'' = t'" by simp
  show "missed_once now i t t'"
  proof (cases "int (d + 1) > max_disappeared t")
    case True
    with big [OF True] d show ?thesis unfolding eq by (simp add: missed_once_def)
  next
    case False
    from small [OF False] have "live t' = live t" unfolding eq by (simp add: live_def)
    with small [OF False] False d lv show ?thesis unfolding eq by (simp add: missed_once_def)
  qed
qed

lemma missed_once_after:
  assumes "missed_once now i t t1" "untouched i t1 t2"
  shows "missed_once now i t t2"
proof -
  have l: "i \<in> live t2 \<longleftrightarrow> i \<in> live t1" by (rule untouched_live [OF assms(2)])
  have e: "map_of (disappeared t2) i = map_of (disappeared t1) i" "states t2 i = states t1 i"
    "exit_times t2 i = exit_times t1 i"
    using assms(2) by (simp_all add: untouched_def)
  show ?thesis using assms(1) unfolding missed_once_def l e .
qed

lemma missed_once_before:
  assumes "untouched i t0 t" "same_config t0 t" "missed_once now i t t1"
  shows "missed_once now i t0 t1"
proof -
  have e: "map_of (disappeared t) i = map_of (disappeared t0) i" "states t i = states t0 i"
    "max_disappeared t = max_disappeared t0"
    using assms(1,2) by (simp_all add: untouched_def same_config_def)
  show ?thesis using assms(3) unfolding missed_once_def e .
qed

lemma disappear_each_props:
  "tracker_inv t \<Longrightarrow> distinct ids \<Longrightarrow> set ids \<subseteq> live t \<Longrightarrow>
   \<exists>t'. disappear_each now ids t = Some t' \<and> tracker_inv t'
      \<and> same_config t t' \<and> states_mono t t' \<and> next_object_id t' = next_object_id t
      \<and> (\<forall>i. i \<notin> set ids \<longrightarrow> untouched i t t')
      \<and> (\<forall>i \<in> set ids. missed_once now i t t')"
proof (induction ids arbitrary: t)
  case Nil
  then show ?case
    by (simp add: same_config_refl states_mono_refl untouched_refl)
next
  case (Cons a ids)
  have lv: "a \<in> live t" using Cons.prems(3) by simp
  from mark_disappeared_props [OF Cons.prems(1) lv, of now] obtain t1 where
    P: "mark_disappeared now a t = Some t1" "tracker_inv t1"
       "next_object_id t1 = next_object_id t" "same_config t t1" "states_mono t t1"
       "\<And>i. i \<noteq> a \<Longrightarrow> untouched i t t1"
    by metis
  have m1: "missed_once now a t t1" by (rule missed_once_step [OF Cons.prems(1) lv P(1)])
  have d: "distinct ids" and na: "a \<notin> set ids" using Cons.prems(2) by simp_all
  have sub: "set ids \<subseteq> live t1"
  proof
    fix i assume i: "i \<in> set ids"
    then have "i \<noteq> a" using na by auto
    from untouched_live [OF P(6) [OF this]] i Cons.prems(3) show "i \<in> live t1" by auto
  qed
  from Cons.IH [OF P(2) d sub] obtain t' where
    Q: "disappear_each now ids t1 = Some t'" "tracker_inv t'"
       "same_config t1 t'" "states_mono t1 t'" "next_object_id t' = next_object_id t1"
       "\<forall>i. i \<notin> set ids \<longrightarrow> untouched i t1 t'"
       "\<forall>i \<in> set ids. missed_once now i t1 t'"
    by blast
  have r: "disappear_each now (a # ids) t = Some t'" using P(1) Q(1) by simp
  have u: "untouched i t t'" if "i \<notin> set (a # ids)" for i
  proof -
    from that have "i \<noteq> a" "i \<notin> set ids" by auto
    then show ?thesis using P(6) Q(6) untouched_trans by blast
  qed
  have m: "missed_once now i t t'" if "i \<in> set (a # ids)" for i
  proof (cases "i = a")
    case True
    have "untouched a t1 t'" using Q(6) na by blast
    from missed_once_after [OF m1 this] True show ?thesis by simp
  next
    case False
    with that have "i \<in> set ids" by simp
    with Q(7) have "missed_once now i t1 t'" by blast
    from missed_once_before [OF P(6) [OF False] P(4) this] show ?thesis .
  qed
  have c: "same_config t t'" by (rule same_config_trans [OF P(4) Q(3)])
  have s: "states_mono t t'" by (rule states_mono_trans [OF P(5) Q(4)])
  have n: "next_object_id t' = next_object_id t" using P(3) Q(5) by simp
  show ?case using r Q(2) c s n u m by blast
qed

lemma deregister_each_props:
  "tracker_inv t \<Longrightarrow> distinct ids \<Longrightarrow> set ids \<subseteq> live t \<Longrightarrow>
   \<exists>t'. deregister_each now ids t = Some t' \<and> tracker_inv t'
      \<and> same_config t t' \<and> states_mono t t' \<and> next_object_id t' = next_object_id t
      \<and> (\<forall>i. i \<notin> set ids \<longrightarrow> untouched i t t')
      \<and> live t' = live t - set ids"
proof (induction ids arbitrary: t)
  case Nil
  then show ?case
    by (simp add: same_config_refl states_mono_refl untouched_refl)
next
  case (Cons a ids)
  have lv: "a \<in> live t" using Cons.prems(3) by simp
  from deregister_props [OF Cons.prems(1) lv, of now] obtain t1 where
    P: "deregister now a t = Some t1" "tracker_inv t1"
       "next_object_id t1 = next_object_id t" "same_config t t1" "states_mono t t1"
       "\<And>i. i \<noteq> a \<Longrightarrow> untouched i t t1" "live t1 = live t - {a}"
    by metis
  have d: "distinct ids" and na: "a \<notin> set ids" using Cons.prems(2) by simp_all
  have sub: "set ids \<subseteq> live t1" unfolding P(7) using Cons.prems(3) na by auto
  from Cons.IH [OF P(2) d sub] obtain t' where
    Q: "deregister_each now ids t1 = Some t'" "tracker_inv t'"
       "same_config t1 t'" "states_mono t1 t'" "next_object_id t' = next_object_id t1"
       "\<forall>i. i \<notin> set ids \<longrightarrow> untouched i t1 t'"
       "live t' = live t1 - set ids"
    by blast
  have r: "deregister_each now (a # ids) t = Some t'" using P(1) Q(1) by simp
  have u: "untouched i t t'" if "i \<notin> set (a # ids)" for i
  proof -
    from that have "i \<noteq> a" "i \<notin> set ids" by auto
    then show ?thesis using P(6) Q(6) untouched_trans by blast
  qed
  have c: "same_config t t'" by (rule same_config_trans [OF P(4) Q(3)])
  have s: "states_mono t t'" by (rule states_mono_trans [OF P(5) Q(4)])
  have n: "next_object_id t' = next_object_id t" using P(3) Q(5) by simp
  have l: "live t' = live t - set (a # ids)" unfolding Q(7) P(7) by auto
  show ?case using r Q(2) c s n u l by blast
qed


lemma register_each_props:
  "tracker_inv t \<Longrightarrow>
   \<exists>t'. register_each now frame cbs t = Some t' \<and> tracker_inv t'
      \<and> same_config t t' \<and> states_mono t t'
      \<and> next_object_id t' = next_object_id t + length cbs
      \<and> (\<forall>i. i < next_object_id t \<longrightarrow> untouched i t t')
      \<and> exit_times t' = exit_times t \<and> counted_people t' = counted_people t
      \<and> objects t' = objects t @ zip [next_object_id t ..< next_object_id t + length cbs] (map fst cbs)"
proof (induction cbs arbitrary: t)
  case Nil
  then show ?case
    by (simp add: same_config_refl states_mono_refl untouched_refl)
next
  case (Cons cb cbs)
  obtain c bb where cb: "cb = (c, bb)" by (cases cb)
  let ?n = "next_object_id t"
  from register_props [OF Cons.prems, of now c bb frame] obtain t1 where
    P: "register now c bb frame t = Some (?n, t1)" "tracker_inv t1"
       "next_object_id t1 = Suc ?n" "objects t1 = objects t @ [(?n, c)]"
       "same_config t t1" "states_mono t t1"
       "\<And>i. i \<noteq> ?n \<Longrightarrow> untouched i t t1"
       "exit_times t1 = exit_times t" "counted_people t1 = counted_people t"
    by metis
  from Cons.IH [OF P(2)] obtain t' where
    Q: "register_each now frame cbs t1 = Some t'" "tracker_inv t'"
       "same_config t1 t'" "states_mono t1 t'"
       "next_object_id t' = next_object_id t1 + length cbs"
       "\<forall>i. i < next_object_id t1 \<longrightarrow> untouched i t1 t'"
       "exit_times t' = exit_times t1" "counted_people t' = counted_people t1"
       "objects t' = objects t1 @ zip [next_object_id t1 ..< next_object_id t1 + length cbs] (map fst cbs)"
    by blast
  have r: "register_each now frame (cb # cbs) t = Some t'" using P(1) Q(1) cb by simp
  have u: "untouched i t t'" if "i < ?n" for i
  proof -
    from that have "i \<noteq> ?n" "i < next_object_id t1" using P(3) by auto
    then show ?thesis using P(7) Q(6) untouched_trans by blast
  qed
  have c: "same_config t t'" by (rule same_config_trans [OF P(5) Q(3)])
  have s: "states_mono t t'" by (rule states_mono_trans [OF P(6) Q(4)])
  have n: "next_object_id t' = ?n + length (cb # cbs)" using P(3) Q(5) by simp
  have e: "exit_times t' = exit_times t" "counted_people t' = counted_people t"
    using P(8,9) Q(7,8) by simp_all
  have "?n < ?n + length (cb # cbs)" by simp
  from upt_conv_Cons [OF this]
  have up: "[?n ..< ?n + length (cb # cbs)] = ?n # [Suc ?n ..< Suc ?n + length cbs]"
    by simp
  have o: "objects t' = objects t @ zip [?n ..< ?n + length (cb # cbs)] (map fst (cb # cbs))"
    unfolding up Q(9) P(3) P(4) using cb by simp
  show ?case using r Q(2) c s n u e o by blast
qed

lemma match_loop_props:
  assumes "tracker_inv t" "object_ids = map fst (objects t)"
    "length input_bboxes = length input_centroids"
    "\<forall>rc \<in> set rcs. fst rc < length object_ids \<and> fst rc < length D
        \<and> snd rc < length (D ! fst rc) \<and> snd rc < length input_centroids"
  shows "\<exists>ur' uc' t'.
     match_loop now D object_ids input_centroids input_bboxes rcs (ur, uc, t) = Some (ur', uc', t')
     \<and> tracker_inv t' \<and> map fst (objects t') = map fst (objects t)
     \<and> same_config t t' \<and> states t' = states t \<and> exit_times t' = exit_times t
     \<and> counted_people t' = counted_people t
     \<and> next_object_id t' = next_object_id t
     \<and> ur \<subseteq> ur' \<and> ur' \<subseteq> ur \<union> fst ` set rcs
     \<and> uc \<subseteq> uc' \<and> uc' \<subseteq> uc \<union> snd ` set rcs
     \<and> (\<forall>r < length object_ids. r \<notin> ur' \<longrightarrow> untouched (object_ids ! r) t t')"
  using assms
proof (induction rcs arbitrary: ur uc t)
  case Nil
  then show ?case by (simp add: same_config_refl untouched_refl)
next
  case (Cons rc rcs)
  obtain row col where rc: "rc = (row, col)" by (cases rc)
  have b: "row < length object_ids" "row < length D" "col < length (D ! row)"
    "col < length input_centroids" "col < length input_bboxes"
    using Cons.prems(3,4) rc by auto
  have rest: "\<forall>rc \<in> set rcs. fst rc < length object_ids \<and> fst rc < length D
        \<and> snd rc < length (D ! fst rc) \<and> snd rc < length input_centroids"
    using Cons.prems(4) by simp
  have dv: "Option.bind (nth_opt D row) (\<lambda>r. nth_opt r col) = Some (D ! row ! col)"
    using b by (simp add: nth_opt_def)
  show ?case
  proof (cases "row \<in> ur \<or> col \<in> uc \<or> D ! row ! col > max_distance t")
    case True
    then have step: "match_loop now D object_ids input_centroids input_bboxes (rc # rcs) (ur, uc, t)
       = match_loop now D object_ids input_centroids input_bboxes rcs (ur, uc, t)"
      unfolding rc using dv by auto
    from Cons.IH [OF Cons.prems(1,2,3) rest, of ur uc] obtain ur' uc' t' where
      Q: "match_loop now D object_ids input_centroids input_bboxes rcs (ur, uc, t) = Some (ur', uc', t')"
        "tracker_inv t'" "map fst (objects t') = map fst (objects t)"
        "same_config t t'" "states t' = states t" "exit_times t' = exit_times t"
        "counted_people t' = counted_people t"
        "next_object_id t' = next_object_id t"
        "ur \<subseteq> ur'" "ur' \<subseteq> ur \<union> fst ` set rcs" "uc \<subseteq> uc'" "uc' \<subseteq> uc \<union> snd ` set rcs"
        "\<forall>r < length object_ids. r \<notin> ur' \<longrightarrow> untouched (object_ids ! r) t t'"
      by (elim exE conjE) (rule that; assumption)
    have "ur' \<subseteq> ur \<union> fst ` set (rc # rcs)" "uc' \<subseteq> uc \<union> snd ` set (rc # rcs)"
      using Q(10,12) by auto
    with Q show ?thesis unfolding step by blast
  next
    case False
    from assign_props [OF Cons.prems(1,2) b(1,4,5), of now] obtain t1 where
      P: "assign now object_ids input_centroids input_bboxes (row, col) t = Some t1"
         "tracker_inv t1" "map fst (objects t1) = map fst (objects t)"
         "next_object_id t1 = next_object_id t"
         "same_config t t1" "states t1 = states t" "exit_times t1 = exit_times t"
         "counted_people t1 = counted_people t"
         "\<And>i. i \<noteq> object_ids ! row \<Longrightarrow> untouched i t t1"
      by metis
    have step: "match_loop now D object_ids input_centroids input_bboxes (rc # rcs) (ur, uc, t)
       = match_loop now D object_ids input_centroids input_bboxes rcs
           (insert row ur, insert col uc, t1)"
      unfolding rc using dv False P(1) by auto
    have ids1: "object_ids = map fst (objects t1)" using Cons.prems(2) P(3) by simp
    from Cons.IH [OF P(2) ids1 Cons.prems(3) rest, of "insert row ur" "insert col uc"]
    obtain ur' uc' t' where
      Q: "match_loop now D object_ids input_centroids input_bboxes rcs
            (insert row ur, insert col uc, t1) = Some (ur', uc', t')"
        "tracker_inv t'" "map fst (objects t') = map fst (objects t1)"
        "same_config t1 t'" "states t' = states t1" "exit_times t' = exit_times t1"
        "counted_people t' = counted_people t1"
        "next_object_id t' = next_object_id t1"
        "insert row ur \<subseteq> ur'" "ur' \<subseteq> insert row ur \<union> fst ` set rcs"
        "insert col uc \<subseteq> uc'" "uc' \<subseteq> insert col uc \<union> snd ` set rcs"
        "\<forall>r < length object_ids. r \<notin> ur' \<longrightarrow> untouched (object_ids ! r) t1 t'"
      by (elim exE conjE) (rule that; assumption)
    have dist: "distinct object_ids" using tracker_invD(1) [OF Cons.prems(1)] Cons.prems(2) by simp
    have u: "untouched (object_ids ! r) t t'" if "r < length object_ids" "r \<notin> ur'" for r
    proof -
      from that Q(9) have "r \<noteq> row" by auto
      with dist that(1) b(1) have "object_ids ! r \<noteq> object_ids ! row"
        by (simp add: nth_eq_iff_index_eq)
      from P(9) [OF this] Q(13) that show ?thesis using untouched_trans by blast
    qed
    have c: "same_config t t'" by (rule same_config_trans [OF P(5) Q(4)])
    have e: "map fst (objects t') = map fst (objects t)" "states t' = states t"
      "exit_times t' = exit_times t" "counted_people t' = counted_people t"
      "next_object_id t' = next_object_id t"
      using P Q by simp_all
    have sub: "ur \<subseteq> ur'" "ur' \<subseteq> ur \<union> fst ` set (rc # rcs)"
      "uc \<subseteq> uc'" "uc' \<subseteq> uc \<union> snd ` set (rc # rcs)"
      using Q(9,10,11,12) rc by auto
    show ?thesis unfolding step using Q(1,2) c e sub u by blast
  qed
qed


lemma disappear_rows_eq:
  "\<forall>r \<in> set rows. r < length ids \<Longrightarrow>
   disappear_rows now ids rows t = disappear_each now (map ((!) ids) rows) t"
proof (induction rows arbitrary: t)
  case Nil
  then show ?case by simp
next
  case (Cons r rows)
  then have r: "nth_opt ids r = Some (ids ! r)" by (simp add: nth_opt_def)
  show ?case
  proof (cases "mark_disappeared now (ids ! r) t")
    case None
    then show ?thesis using r by simp
  next
    case (Some t1)
    then show ?thesis using r Cons by simp
  qed
qed

lemma those_map_Some:
  "\<forall>x \<in> set xs. f x \<noteq> None \<Longrightarrow> \<exists>ys. those (map f xs) = Some ys"
proof (induction xs)
  case Nil
  then show ?case by simp
next
  case (Cons x xs)
  then obtain y ys where "f x = Some y" "those (map f xs) = Some ys" by auto
  then show ?case by simp
qed

lemma get_objects_Some:
  assumes inv: "tracker_inv t"
  shows "\<exists>objs. get_objects t = Some objs"
proof -
  note D = tracker_invD [OF inv]
  have "object_entry t item \<noteq> None" if "item \<in> set (objects t)" for item
  proof -
    obtain i c where item: "item = (i, c)" by (cases item)
    with that have lv: "i \<in> live t" by (force simp add: live_def)
    then obtain bb s where bs: "positions t i = Some bb" "states t i = Some s"
      using D(3,4) by blast
    from lv D(5) have "i \<in> fst ` set (timestamps t)" by blast
    then have "map_of (timestamps t) i \<noteq> None" unfolding map_of_None_iff by simp
    then obtain ts where "map_of (timestamps t) i = Some ts" by blast
    with bs item show ?thesis by (simp add: object_entry_def)
  qed
  then show ?thesis unfolding get_objects_def by (intro those_map_Some) blast
qed

lemma amin_in_set: "xs \<noteq> [] \<Longrightarrow> amin xs \<in> set xs"
proof -
  have "fold min ys y \<in> set (y # ys)" for y :: real and ys
  proof (induction ys arbitrary: y)
    case Nil
    then show ?case by simp
  next
    case (Cons z ys)
    have "min z y = z \<or> min z y = y" by (simp add: min_def)
    with Cons [of "min z y"] show ?case by auto
  qed
  moreover assume "xs \<noteq> []"
  ultimately show ?thesis by (cases xs) simp_all
qed

lemma length_takeWhile_less: "x \<in> set xs \<Longrightarrow> \<not> P x \<Longrightarrow> length (takeWhile P xs) < length xs"
  by (induction xs) auto

lemma argmin_less: "xs \<noteq> [] \<Longrightarrow> argmin xs < length xs"
  unfolding argmin_def using amin_in_set [of xs]
  by (intro length_takeWhile_less [of "amin xs"]) auto


lemma shed_ids:
  assumes "distinct (map fst xs)"
  shows "distinct (map fst (take k (sort_key f xs)))"
    and "set (map fst (take k (sort_key f xs))) \<subseteq> fst ` set xs"
proof -
  have "distinct xs" "inj_on fst (set xs)" using assms by (simp_all add: distinct_map)
  then have "distinct (map fst (sort_key f xs))" by (simp add: distinct_map)
  then have "distinct (take k (map fst (sort_key f xs)))" by (rule distinct_take)
  then show "distinct (map fst (take k (sort_key f xs)))" by (simp add: take_map)
  have "set (take k (sort_key f xs)) \<subseteq> set (sort_key f xs)" by (rule set_take_subset)
  then show "set (map fst (take k (sort_key f xs))) \<subseteq> fst ` set xs" by auto
qed

lemma shed_load_props:
  assumes inv: "tracker_inv t"
  shows "\<exists>t'. shed_load now detections t = Some t' \<and> tracker_inv t'
      \<and> same_config t t' \<and> states_mono t t' \<and> next_object_id t' = next_object_id t
      \<and> live t' \<subseteq> live t"
proof (cases "length (objects t) > 2 * length detections \<and> length detections > 0")
  case False
  then have "shed_load now detections t = Some t" by (auto simp add: shed_load_def)
  then show ?thesis using inv by (simp add: same_config_refl states_mono_refl)
next
  case True
  define ids where "ids = map fst (take (length (sort_key (\<lambda>x. - int (snd x)) (disappeared t)) div 2)
      (sort_key (\<lambda>x. - int (snd x)) (disappeared t)))"
  have sl: "shed_load now detections t = deregister_each now ids t"
    using True by (simp add: shed_load_def Let_def ids_def)
  have dd: "distinct (map fst (disappeared t))" using tracker_invD(1,2) [OF inv] by simp
  have d: "distinct ids" unfolding ids_def by (rule shed_ids(1) [OF dd])
  have "set ids \<subseteq> fst ` set (disappeared t)" unfolding ids_def by (rule shed_ids(2) [OF dd])
  then have s: "set ids \<subseteq> live t" using live_disappeared [OF inv] by simp
  from deregister_each_props [OF inv d s, of now] show ?thesis unfolding sl by auto
qed


lemma live_keys: "map fst (objects t') = map fst (objects t) \<Longrightarrow> live t' = live t"
proof -
  assume "map fst (objects t') = map fst (objects t)"
  then have "set (map fst (objects t')) = set (map fst (objects t))" by simp
  then show ?thesis by (simp add: live_def)
qed

lemma live_below_next: "tracker_inv t \<Longrightarrow> i \<in> live t \<Longrightarrow> i < next_object_id t"
  using tracker_invD(4,6) [of t] by blast

lemma states_mono_eq: "states t' = states t \<Longrightarrow> states_mono t t'"
  by (simp add: states_mono_def)

lemma associate_props:
  assumes inv: "tracker_inv t" and ne: "input_centroids \<noteq> []"
    and len: "length input_bboxes = length input_centroids"
    and srt: "argsort_ok argsort (map amin (cdist (map snd (objects t)) input_centroids))"
  shows "\<exists>ur uc tm t'.
      matching argsort now input_centroids input_bboxes t = Some (ur, uc, tm)
      \<and> associate argsort now input_centroids input_bboxes frame t = Some t'
      \<and> tracker_inv t' \<and> same_config t t' \<and> states_mono t t'
      \<and> (\<forall>r < length (objects t). r \<notin> ur \<longrightarrow> missed_once now (fst (objects t ! r)) t t')"
proof -
  define ids where "ids = map fst (objects t)"
  define D where "D = cdist (map snd (objects t)) input_centroids"
  define rows where "rows = argsort (map amin D)"
  define cols where "cols = map (\<lambda>row. argmin (D ! row)) rows"
  have lD: "length D = length ids" by (simp add: D_def ids_def cdist_def)
  have lrow: "length (D ! r) = length input_centroids" if "r < length D" for r
    using that by (simp add: D_def cdist_def)
  have rows_set: "set rows = {0..<length D}" and rows_dist: "distinct rows"
    using srt unfolding argsort_ok_def rows_def D_def by simp_all
  have bounds: "\<forall>rc \<in> set (zip rows cols). fst rc < length ids \<and> fst rc < length D
        \<and> snd rc < length (D ! fst rc) \<and> snd rc < length input_centroids"
  proof
    fix rc assume "rc \<in> set (zip rows cols)"
    then obtain k where k: "k < length rows" "rc = (rows ! k, cols ! k)"
      by (auto simp add: set_zip cols_def)
    then have r: "rows ! k \<in> set rows" by simp
    then have rl: "rows ! k < length D" unfolding rows_set by simp
    have c: "cols ! k = argmin (D ! (rows ! k))" using k by (simp add: cols_def)
    have "D ! (rows ! k) \<noteq> []" using lrow [OF rl] ne by auto
    then have "cols ! k < length (D ! (rows ! k))" unfolding c by (rule argmin_less)
    then show "fst rc < length ids \<and> fst rc < length D
        \<and> snd rc < length (D ! fst rc) \<and> snd rc < length input_centroids"
      using rl lD lrow [OF rl] k(2) by simp
  qed
  from match_loop_props [OF inv ids_def len bounds, of now "{}" "{}"]
  obtain ur uc t1 where
    M: "match_loop now D ids input_centroids input_bboxes (zip rows cols) ({}, {}, t)
          = Some (ur, uc, t1)"
       "tracker_inv t1" "map fst (objects t1) = map fst (objects t)"
       "same_config t t1" "states t1 = states t"
       "next_object_id t1 = next_object_id t"
       "\<forall>r < length ids. r \<notin> ur \<longrightarrow> untouched (ids ! r) t t1"
    by (elim exE conjE) (rule that; assumption)
  have mt: "matching argsort now input_centroids input_bboxes t = Some (ur, uc, t1)"
    using M(1) by (simp add: matching_def Let_def ids_def D_def rows_def cols_def)
  define unused where "unused = filter (\<lambda>row. row \<notin> ur) [0..<length D]"
  have ub: "\<forall>r \<in> set unused. r < length ids" by (simp add: unused_def lD)
  have dr: "disappear_rows now ids unused t1 = disappear_each now (map ((!) ids) unused) t1"
    by (rule disappear_rows_eq [OF ub])
  have dist_ids: "distinct ids" using tracker_invD(1) [OF inv] by (simp add: ids_def)
  have d1: "distinct (map ((!) ids) unused)"
  proof -
    have "distinct unused" by (simp add: unused_def)
    moreover have "inj_on ((!) ids) (set unused)"
      using dist_ids ub by (auto simp add: inj_on_def nth_eq_iff_index_eq)
    ultimately show ?thesis by (simp add: distinct_map)
  qed
  have lv1: "live t1 = live t" by (rule live_keys [OF M(3)])
  have s1: "set (map ((!) ids) unused) \<subseteq> live t1"
    unfolding lv1 using ub by (auto simp add: live_def ids_def)
  from disappear_each_props [OF M(2) d1 s1, of now] obtain t2 where
    P: "disappear_each now (map ((!) ids) unused) t1 = Some t2" "tracker_inv t2"
       "same_config t1 t2" "states_mono t1 t2" "next_object_id t2 = next_object_id t1"
       "\<forall>i \<in> set (map ((!) ids) unused). missed_once now i t1 t2"
    by (elim exE conjE) (rule that; assumption)
  define news where "news = map (\<lambda>col. (input_centroids ! col, input_bboxes ! col))
      (filter (\<lambda>col. col \<notin> uc) [0..<length input_centroids])"
  from register_each_props [OF P(2), of now frame news] obtain t3 where
    R: "register_each now frame news t2 = Some t3" "tracker_inv t3"
       "same_config t2 t3" "states_mono t2 t3"
       "\<forall>i. i < next_object_id t2 \<longrightarrow> untouched i t2 t3"
    by (elim exE conjE) (rule that; assumption)
  have res: "associate argsort now input_centroids input_bboxes frame t = Some t3"
    using M(1) P(1) R(1) dr
    by (simp add: associate_def Let_def ids_def [symmetric] D_def [symmetric]
        rows_def [symmetric] cols_def [symmetric] unused_def [symmetric] news_def [symmetric])
  have cfg: "same_config t t3"
    by (rule same_config_trans [OF same_config_trans [OF M(4) P(3)] R(3)])
  have mono: "states_mono t t3"
    by (rule states_mono_trans
        [OF states_mono_trans [OF states_mono_eq [OF M(5)] P(4)] R(4)])
  have missed: "missed_once now (fst (objects t ! r)) t t3"
    if r: "r < length (objects t)" "r \<notin> ur" for r
  proof -
    have rl: "r < length ids" using r(1) by (simp add: ids_def)
    have idr: "ids ! r = fst (objects t ! r)" using r(1) by (simp add: ids_def)
    have "r \<in> set unused" using r rl by (simp add: unused_def lD)
    then have "ids ! r \<in> set (map ((!) ids) unused)" by simp
    with P(6) have a: "missed_once now (ids ! r) t1 t2" by blast
    from M(7) rl r(2) have b: "untouched (ids ! r) t t1" by blast
    have c: "missed_once now (ids ! r) t t2" by (rule missed_once_before [OF b M(4) a])
    have "ids ! r \<in> live t" using rl by (simp add: live_def ids_def)
    then have "ids ! r < next_object_id t2"
      using live_below_next [OF inv] P(5) M(6) by simp
    with R(5) have "untouched (ids ! r) t2 t3" by blast
    from missed_once_after [OF c this] show ?thesis unfolding idr .
  qed
  show ?thesis using mt res R(2) cfg mono missed by blast
qed


lemma update_props:
  assumes inv: "tracker_inv t" and shed: "shed_load now detections t = Some t1"
    and srt: "detections \<noteq> [] \<longrightarrow> objects t1 \<noteq> [] \<longrightarrow>
       argsort_ok argsort (map amin (cdist (map snd (objects t1)) (map centroid_of detections)))"
  shows "\<exists>objs t'. update argsort now detections frame t = Some (objs, t')
     \<and> get_objects t' = Some objs
     \<and> tracker_inv t' \<and> same_config t t' \<and> states_mono t t'
     \<and> (detections = [] \<longrightarrow> t1 = t \<and> (\<forall>i \<in> live t. missed_once now i t t'))
     \<and> (detections \<noteq> [] \<longrightarrow>
          (\<forall>ur uc tm.
             matching argsort now (map centroid_of detections) (map bbox_of detections) t1
               = Some (ur, uc, tm) \<longrightarrow>
             (\<forall>r < length (objects t1). r \<notin> ur \<longrightarrow>
                missed_once now (fst (objects t1 ! r)) t1 t')))"
proof -
  from shed_load_props [OF inv, of now detections] shed
  have S: "tracker_inv t1" "same_config t t1" "states_mono t t1" by auto
  define cents where "cents = map centroid_of detections"
  define bbs where "bbs = map bbox_of detections"
  have core: "\<exists>t2.
      (if length detections = 0
       then disappear_each now (map fst (disappeared t1)) t1
       else if length (objects t1) = 0
            then register_each now frame (zip cents bbs) t1
            else associate argsort now cents bbs frame t1) = Some t2
      \<and> tracker_inv t2 \<and> same_config t1 t2 \<and> states_mono t1 t2
      \<and> (detections = [] \<longrightarrow> t1 = t \<and> (\<forall>i \<in> live t. missed_once now i t t2))
      \<and> (detections \<noteq> [] \<longrightarrow>
          (\<forall>ur uc tm. matching argsort now cents bbs t1 = Some (ur, uc, tm) \<longrightarrow>
             (\<forall>r < length (objects t1). r \<notin> ur \<longrightarrow>
                missed_once now (fst (objects t1 ! r)) t1 t2)))"
  proof (cases "detections = []")
    case True
    have tt: "t1 = t" using shed True by (simp add: shed_load_def)
    have d: "distinct (map fst (disappeared t))" using tracker_invD(1,2) [OF inv] by simp
    have s: "set (map fst (disappeared t)) \<subseteq> live t" using live_disappeared [OF inv] by simp
    from disappear_each_props [OF inv d s, of now] obtain t2 where
      P: "disappear_each now (map fst (disappeared t)) t = Some t2" "tracker_inv t2"
         "same_config t t2" "states_mono t t2"
         "\<forall>i \<in> set (map fst (disappeared t)). missed_once now i t t2"
      by (elim exE conjE) (rule that; assumption)
    have "\<forall>i \<in> live t. missed_once now i t t2" using P(5) live_disappeared [OF inv] by simp
    then show ?thesis using True tt P(1,2,3,4) by auto
  next
    case False
    show ?thesis
    proof (cases "objects t1 = []")
      case True
      from register_each_props [OF S(1), of now frame "zip cents bbs"] obtain t2 where
        P: "register_each now frame (zip cents bbs) t1 = Some t2" "tracker_inv t2"
           "same_config t1 t2" "states_mono t1 t2"
        by (elim exE conjE) (rule that; assumption)
      then show ?thesis using False True by auto
    next
      case ne: False
      have c: "cents \<noteq> []" using False by (simp add: cents_def)
      have l: "length bbs = length cents" by (simp add: cents_def bbs_def)
      have a: "argsort_ok argsort (map amin (cdist (map snd (objects t1)) cents))"
        using srt False ne by (simp add: cents_def)
      from associate_props [OF S(1) c l a, of now frame] obtain ur uc tm t2 where
        P: "matching argsort now cents bbs t1 = Some (ur, uc, tm)"
           "associate argsort now cents bbs frame t1 = Some t2"
           "tracker_inv t2" "same_config t1 t2" "states_mono t1 t2"
           "\<forall>r < length (objects t1). r \<notin> ur \<longrightarrow> missed_once now (fst (objects t1 ! r)) t1 t2"
        by (elim exE conjE) (rule that; assumption)
      show ?thesis using False ne P by auto
    qed
  qed
  then obtain t2 where
    C: "(if length detections = 0
       then disappear_each now (map fst (disappeared t1)) t1
       else if length (objects t1) = 0
            then register_each now frame (zip cents bbs) t1
            else associate argsort now cents bbs frame t1) = Some t2"
      "tracker_inv t2" "same_config t1 t2" "states_mono t1 t2"
      "detections = [] \<longrightarrow> t1 = t \<and> (\<forall>i \<in> live t. missed_once now i t t2)"
      "detections \<noteq> [] \<longrightarrow>
          (\<forall>ur uc tm. matching argsort now cents bbs t1 = Some (ur, uc, tm) \<longrightarrow>
             (\<forall>r < length (objects t1). r \<notin> ur \<longrightarrow>
                missed_once now (fst (objects t1 ! r)) t1 t2))"
    by (elim exE conjE) (rule that; assumption)
  from get_objects_Some [OF C(2)] obtain objs where g: "get_objects t2 = Some objs" by blast
  have u: "update argsort now detections frame t = Some (objs, t2)"
    unfolding update_def shed option.case Let_def cents_def [symmetric] bbs_def [symmetric]
      C(1) g by simp
  have cfg: "same_config t t2" by (rule same_config_trans [OF S(2) C(3)])
  have mono: "states_mono t t2" by (rule states_mono_trans [OF S(3) C(4)])
  show ?thesis using u g C(2) cfg mono C(5,6) unfolding cents_def bbs_def by blast
qed


lemma argsort_ok_stable: "argsort_ok stable_argsort ks"
  unfolding argsort_ok_def stable_argsort_def
  by (simp add: sorted_sort_key [unfolded comp_def])

lemma euclidean_level: "euclidean (x1, y) (x2, y) = \<bar>x1 - x2\<bar>"
  by (simp add: euclidean_def)

lemma two_tracker_inv: "tracker_inv two_tracker"
  by (simp add: tracker_inv_def two_tracker_def live_def)

lemma two_cdist: "cdist (map snd (objects two_tracker)) [(110, 160)] = [[10], [190]]"
  by (simp add: cdist_def two_tracker_def euclidean_level)

lemma two_rows: "stable_argsort (map amin [[10], [190]]) = [0, 1]"
  by (simp add: stable_argsort_def upt_rec)

lemma two_cols: "map (\<lambda>row. argmin ([[10], [190]] ! row)) [0, 1] = [0, 0]"
  by (simp add: argmin_def)

lemma two_matching:
  "matching stable_argsort 1 [(110, 160)] [(90, 100, 130, 220)] two_tracker
   = Some ({0}, {0},
       two_tracker\<lparr>objects := [(0, (110, 160)), (1, (300, 160))],
         positions := [0 \<mapsto> (90, 100, 130, 220), 1 \<mapsto> (280, 100, 320, 220)],
         disappeared := [(0, 0), (1, 40)],
         timestamps := [(0, \<lparr>first_seen = 0, last_seen = 1\<rparr>),
                        (1, \<lparr>first_seen = 0, last_seen = 0\<rparr>)]\<rparr>)"
  unfolding matching_def Let_def two_cdist two_rows two_cols
  by (simp add: two_tracker_def assign_def nth_opt_def fun_upd_twist)


lemma three_tracker_inv: "tracker_inv three_tracker"
  by (simp add: tracker_inv_def three_tracker_def live_def)

lemma three_shed:
  "shed_load 1 [(290, 100, 330, 220, 9/10)] three_tracker
   = Some (three_tracker\<lparr>objects := [(1, (300, 160)), (2, (500, 160))],
        disappeared := [(1, 0), (2, 0)],
        positions := [1 \<mapsto> (280, 100, 320, 220), 2 \<mapsto> (480, 100, 520, 220)]\<rparr>)"
  by (simp add: shed_load_def three_tracker_def deregister_def fun_upd_twist)


lemma scanned_tracker_inv: "tracker_inv scanned_tracker"
  by (simp add: tracker_inv_def scanned_tracker_def live_def)


lemma two_shed: "shed_load 1 [(90, 100, 130, 220, 9/10)] two_tracker = Some two_tracker"
  by (simp add: shed_load_def two_tracker_def)



lemmas eval_defs =
  process_frame_def update_def shed_load_def Let_def associate_def cdist_def euclidean_level
  centroid_of_def bbox_of_def stable_argsort_def upt_rec argmin_def assign_def nth_opt_def
  mark_disappeared_def deregister_def register_def get_objects_def object_entry_def
  is_already_counted_def live_def identify_person_def best_match_def mark_as_counted_def
  mark_as_scanned_def count_visitors_def count_object_def side_of_def check_for_exits_def
  init_tracker_def init_reid_def init_counter_def py_int_def example_reid_def
  example_counter_def walk_in_def

lemma walk_reaches_scanned_tracker:
  "map_option snd
     (run_frames stable_argsort (walk_in 1)
        (example_counter, init_tracker 40 50 10 True (Some example_reid)))
   = Some scanned_tracker"
  by (simp add: eval_defs scanned_tracker_def fun_upd_twist)



lemma mark_as_scanned_props:
  assumes inv: "tracker_inv t"
  shows "tracker_inv (snd (mark_as_scanned i t)) \<and> states_mono t (snd (mark_as_scanned i t))"
proof (cases "i \<in> live t")
  case False
  then show ?thesis using inv by (simp add: mark_as_scanned_def states_mono_refl)
next
  case True
  note D = tracker_invD [OF inv]
  define t' where "t' = t\<lparr>states := (states t)(i \<mapsto> Scanned)\<rparr>"
  have r: "snd (mark_as_scanned i t) = t'" using True by (simp add: mark_as_scanned_def t'_def)
  from True D(4) obtain s where s: "states t i = Some s" by blast
  have ne: "s \<noteq> Exited" using D(7) [OF True] s by simp
  have dm: "dom (states t') = dom (states t)" using s by (auto simp add: t'_def)
  have lv: "live t' = live t" by (simp add: live_def t'_def)
  have i': "tracker_inv t'"
  proof (rule tracker_invI)
    show "distinct (map fst (objects t'))" using D(1) by (simp add: t'_def)
    show "map fst (disappeared t') = map fst (objects t')" using D(2) by (simp add: t'_def)
    show "live t' \<subseteq> dom (positions t')" unfolding lv using D(3) by (simp add: t'_def)
    show "live t' \<subseteq> dom (states t')" unfolding lv dm by (rule D(4))
    show "live t' \<subseteq> fst ` set (timestamps t')" unfolding lv using D(5) by (simp add: t'_def)
    show "j < next_object_id t'" if "j \<in> dom (states t')" for j
      using that D(6) [of j] unfolding dm by (simp add: t'_def)
    show "states t' j \<noteq> Some Exited" if "j \<in> live t'" for j
      using that D(7) [of j] unfolding lv by (simp add: t'_def)
    show "reid t' \<noteq> None" if "reid_enabled t'" using that D(8) by (simp add: t'_def)
    show "person_ids t' = Map.empty" if "\<not> reid_enabled t'" using that D(9) by (simp add: t'_def)
  qed
  have m: "states_mono t t'"
    unfolding states_mono_def using s ne by (cases s) (auto simp add: t'_def rank_def)
  show ?thesis unfolding r using i' m by simp
qed

lemma mark_as_counted_props:
  assumes inv: "tracker_inv t"
  shows "tracker_inv (mark_as_counted now i t) \<and> states_mono t (mark_as_counted now i t)"
proof (cases "states t i = Some New")
  case False
  then have "mark_as_counted now i t = t"
    by (simp add: mark_as_counted_def split: option.splits)
  then show ?thesis using inv by (simp add: states_mono_refl)
next
  case True
  note D = tracker_invD [OF inv]
  define t' where "t' = t\<lparr>states := (states t)(i \<mapsto> Scanned),
                          entry_times := (entry_times t)(i \<mapsto> now)\<rparr>"
  have r: "mark_as_counted now i t = t'" using True by (simp add: mark_as_counted_def t'_def)
  have dm: "dom (states t') = dom (states t)" using True by (auto simp add: t'_def)
  have lv: "live t' = live t" by (simp add: live_def t'_def)
  have i': "tracker_inv t'"
  proof (rule tracker_invI)
    show "distinct (map fst (objects t'))" using D(1) by (simp add: t'_def)
    show "map fst (disappeared t') = map fst (objects t')" using D(2) by (simp add: t'_def)
    show "live t' \<subseteq> dom (positions t')" unfolding lv using D(3) by (simp add: t'_def)
    show "live t' \<subseteq> dom (states t')" unfolding lv dm by (rule D(4))
    show "live t' \<subseteq> fst ` set (timestamps t')" unfolding lv using D(5) by (simp add: t'_def)
    show "j < next_object_id t'" if "j \<in> dom (states t')" for j
      using that D(6) [of j] unfolding dm by (simp add: t'_def)
    show "states t' j \<noteq> Some Exited" if "j \<in> live t'" for j
      using that D(7) [of j] unfolding lv by (simp add: t'_def)
    show "reid t' \<noteq> None" if "reid_enabled t'" using that D(8) by (simp add: t'_def)
    show "person_ids t' = Map.empty" if "\<not> reid_enabled t'" using that D(9) by (simp add: t'_def)
  qed
  have m: "states_mono t t'"
    unfolding states_mono_def using True by (auto simp add: t'_def rank_def)
  show ?thesis unfolding r using i' m by simp
qed

lemma count_object_tracker:
  "snd (count_object item (c, t)) = t
   \<or> snd (count_object item (c, t)) = snd (mark_as_scanned (fst item) t)"
  by (cases item) (simp add: count_object_def Let_def split: option.splits)

lemma fold_count_object_tracker:
  "tracker_inv t \<Longrightarrow>
   tracker_inv (snd (fold count_object objs (c, t)))
   \<and> states_mono t (snd (fold count_object objs (c, t)))"
proof (induction objs arbitrary: c t)
  case Nil
  then show ?case by (simp add: states_mono_refl)
next
  case (Cons item objs)
  obtain c1 t1 where step: "count_object item (c, t) = (c1, t1)"
    by (cases "count_object item (c, t)")
  from count_object_tracker [of item c t] step
  have "t1 = t \<or> t1 = snd (mark_as_scanned (fst item) t)" by simp
  with mark_as_scanned_props [OF Cons.prems, of "fst item"]
  have a: "tracker_inv t1" and b: "states_mono t t1"
    using Cons.prems states_mono_refl by auto
  from Cons.IH [OF a, of c1] b step show ?case
    using states_mono_trans by fastforce
qed

lemma count_visitors_tracker:
  assumes "tracker_inv t"
  shows "tracker_inv (snd (count_visitors objs t c))
   \<and> states_mono t (snd (count_visitors objs t c))"
  using fold_count_object_tracker [OF assms, of objs c] assms
  by (simp add: count_visitors_def states_mono_refl)


lemma exit_step:
  assumes inv: "tracker_inv t" and lv: "i \<in> live t" and sc: "states t i = Some Scanned"
  shows "\<exists>t'. deregister now i
            (t\<lparr>states := (states t)(i \<mapsto> Exited), exit_times := (exit_times t)(i \<mapsto> now)\<rparr>)
          = Some t'
     \<and> tracker_inv t' \<and> states_mono t t' \<and> same_config t t'
     \<and> live t' = live t - {i} \<and> counted_people t' = counted_people t
     \<and> states t' = (states t)(i \<mapsto> Exited) \<and> exit_times t' = (exit_times t)(i \<mapsto> now)"
proof -
  note D = tracker_invD [OF inv]
  define t' where "t' = t\<lparr>states := (states t)(i \<mapsto> Exited),
      exit_times := (exit_times t)(i \<mapsto> now),
      objects := AList.delete i (objects t),
      disappeared := AList.delete i (disappeared t),
      positions := (positions t)(i := None)\<rparr>"
  have o: "i \<in> fst ` set (objects t)" using lv by (simp add: live_def)
  have d: "i \<in> fst ` set (disappeared t)" using live_disappeared [OF inv] lv by simp
  have p: "i \<in> dom (positions t)" using D(3) lv by blast
  have res: "deregister now i
       (t\<lparr>states := (states t)(i \<mapsto> Exited), exit_times := (exit_times t)(i \<mapsto> now)\<rparr>)
     = Some t'"
    using o d p by (simp add: deregister_def Let_def t'_def)
  have lv': "live t' = live t - {i}" by (simp add: t'_def live_def live_delete)
  have dm: "dom (states t') = dom (states t)" using sc by (auto simp add: t'_def)
  have i': "tracker_inv t'"
  proof (rule tracker_invI)
    show "distinct (map fst (objects t'))" using D(1) by (simp add: t'_def distinct_delete)
    show "map fst (disappeared t') = map fst (objects t')"
      using D(2) by (simp add: t'_def delete_keys)
    show "live t' \<subseteq> dom (positions t')" unfolding lv' using D(3) by (auto simp add: t'_def)
    show "live t' \<subseteq> dom (states t')" unfolding lv' dm using D(4) by auto
    show "live t' \<subseteq> fst ` set (timestamps t')" unfolding lv' using D(5) by (auto simp add: t'_def)
    show "j < next_object_id t'" if "j \<in> dom (states t')" for j
      using that D(6) [of j] unfolding dm by (simp add: t'_def)
    show "states t' j \<noteq> Some Exited" if "j \<in> live t'" for j
      using that D(7) [of j] unfolding lv' by (auto simp add: t'_def)
    show "reid t' \<noteq> None" if "reid_enabled t'" using that D(8) by (simp add: t'_def)
    show "person_ids t' = Map.empty" if "\<not> reid_enabled t'" using that D(9) by (simp add: t'_def)
  qed
  have m: "states_mono t t'"
    unfolding states_mono_def using sc by (auto simp add: t'_def rank_def)
  have c: "same_config t t'" by (simp add: same_config_def t'_def)
  have r: "counted_people t' = counted_people t" "states t' = (states t)(i \<mapsto> Exited)"
    "exit_times t' = (exit_times t)(i \<mapsto> now)"
    by (simp_all add: t'_def)
  show ?thesis unfolding res using i' m c lv' r by blast
qed

lemma check_exits_loop_props:
  "tracker_inv t \<Longrightarrow>
   \<exists>ids t'. check_exits_loop now tsl (acc, t) = Some (ids, t')
     \<and> tracker_inv t' \<and> states_mono t t' \<and> same_config t t'
     \<and> counted_people t' = counted_people t"
proof (induction tsl arbitrary: acc t)
  case Nil
  then show ?case by (simp add: states_mono_refl same_config_refl)
next
  case (Cons entry tsl)
  obtain i ts where e: "entry = (i, ts)" by (cases entry)
  show ?case
  proof (cases "states t i = Some Scanned \<and> now - last_seen ts > exit_timeout t \<and> i \<in> live t")
    case False
    then have step: "check_exits_loop now (entry # tsl) (acc, t) = check_exits_loop now tsl (acc, t)"
      unfolding e by (auto simp add: Let_def)
    from Cons.IH [OF Cons.prems, of acc] show ?thesis unfolding step .
  next
    case True
    then have sc: "states t i = Some Scanned" and lv: "i \<in> live t" by simp_all
    define t1 where "t1 = t\<lparr>states := (states t)(i \<mapsto> Exited),
                            exit_times := (exit_times t)(i \<mapsto> now)\<rparr>"
    from exit_step [OF Cons.prems lv sc, of now] obtain t2 where
      P: "deregister now i t1 = Some t2" "tracker_inv t2" "states_mono t t2" "same_config t t2"
         "counted_people t2 = counted_people t"
      unfolding t1_def [symmetric] by (elim exE conjE) (rule that; assumption)
    have step: "check_exits_loop now (entry # tsl) (acc, t)
         = check_exits_loop now tsl (acc @ [i], t2)"
      unfolding e using True P(1) by (simp add: Let_def t1_def)
    from Cons.IH [OF P(2), of "acc @ [i]"] obtain ids t' where
      Q: "check_exits_loop now tsl (acc @ [i], t2) = Some (ids, t')"
         "tracker_inv t'" "states_mono t2 t'" "same_config t2 t'"
         "counted_people t' = counted_people t2"
      by (elim exE conjE) (rule that; assumption)
    have m: "states_mono t t'" by (rule states_mono_trans [OF P(3) Q(3)])
    have c: "same_config t t'" by (rule same_config_trans [OF P(4) Q(4)])
    show ?thesis unfolding step using Q(1,2) m c Q(5) P(5) by simp
  qed
qed

lemma check_for_exits_props:
  assumes "tracker_inv t"
  shows "\<exists>ids t'. check_for_exits now t = Some (ids, t')
     \<and> tracker_inv t' \<and> states_mono t t' \<and> same_config t t'
     \<and> counted_people t' = counted_people t"
  unfolding check_for_exits_def by (rule check_exits_loop_props [OF assms])

lemma deregister_Some_live: "deregister now i t = Some t' \<Longrightarrow> i \<in> live t"
  by (auto simp add: deregister_def Let_def live_def split: option.splits if_splits)


lemma apply_op_props:
  assumes inv: "tracker_inv t" and srt: "\<And>ks. argsort_ok argsort ks"
    and res: "apply_op argsort op (c, t) = Some (c', t')"
  shows "tracker_inv t' \<and> states_mono t t'"
proof (cases op)
  case (Update now detections frame)
  from shed_load_props [OF inv, of now detections] obtain t1 where
    shed: "shed_load now detections t = Some t1" by blast
  have s: "detections \<noteq> [] \<longrightarrow> objects t1 \<noteq> [] \<longrightarrow>
       argsort_ok argsort (map amin (cdist (map snd (objects t1)) (map centroid_of detections)))"
    using srt by simp
  from update_props [OF inv shed s, of frame] obtain objs t2 where
    U: "update argsort now detections frame t = Some (objs, t2)" "tracker_inv t2"
       "states_mono t t2"
    by (elim exE conjE) (rule that; assumption)
  from res Update U(1) have "t' = t2" by simp
  with U show ?thesis by simp
next
  case (CheckForExits now)
  from check_for_exits_props [OF inv, of now] obtain ids t2 where
    U: "check_for_exits now t = Some (ids, t2)" "tracker_inv t2" "states_mono t t2"
    by (elim exE conjE) (rule that; assumption)
  from res CheckForExits U(1) have "t' = t2" by simp
  with U show ?thesis by simp
next
  case (CountVisitors objs)
  with res have "t' = snd (count_visitors objs t c)" by auto
  with count_visitors_tracker [OF inv, of objs c] show ?thesis by simp
next
  case (Register now cen bb frame)
  from register_props [OF inv, of now cen bb frame] obtain t2 where
    U: "register now cen bb frame t = Some (next_object_id t, t2)" "tracker_inv t2"
       "states_mono t t2"
    by metis
  from res Register U(1) have "t' = t2" by simp
  with U show ?thesis by simp
next
  case (Deregister now i)
  with res have d: "deregister now i t = Some t'" by auto
  have lv: "i \<in> live t" by (rule deregister_Some_live [OF d])
  from deregister_props [OF inv lv, of now] obtain t2 where
    U: "deregister now i t = Some t2" "tracker_inv t2" "states_mono t t2"
    by metis
  from d U(1) have "t' = t2" by simp
  with U show ?thesis by simp
next
  case (MarkAsScanned i)
  with res have "t' = snd (mark_as_scanned i t)" by auto
  with mark_as_scanned_props [OF inv, of i] show ?thesis by simp
next
  case (MarkAsCounted now i)
  with res have "t' = mark_as_counted now i t" by auto
  with mark_as_counted_props [OF inv, of now i] show ?thesis by simp
qed

lemma run_ops_props:
  assumes srt: "\<And>ks. argsort_ok argsort ks"
  shows "tracker_inv t \<Longrightarrow> run_ops argsort ops (c, t) = Some (c', t') \<Longrightarrow>
     tracker_inv t' \<and> states_mono t t'"
proof (induction ops arbitrary: c t)
  case Nil
  then show ?case by (simp add: states_mono_refl)
next
  case (Cons op ops)
  from Cons.prems(2) obtain c1 t1 where
    step: "apply_op argsort op (c, t) = Some (c1, t1)"
    and rest: "run_ops argsort ops (c1, t1) = Some (c', t')"
    by (auto split: option.splits)
  from apply_op_props [OF Cons.prems(1) srt step]
  have a: "tracker_inv t1" and b: "states_mono t t1" by simp_all
  from Cons.IH [OF a rest] b show ?case using states_mono_trans by blast
qed

lemma states_mono_cases:
  assumes "states_mono t t'"
  shows "(states t i = Some New \<longrightarrow> states t' i \<noteq> None)
     \<and> (states t i = Some Scanned \<longrightarrow> states t' i = Some Scanned \<or> states t' i = Some Exited)
     \<and> (states t i = Some Exited \<longrightarrow> states t' i = Some Exited)"
proof -
  have step: "\<exists>s'. states t' i = Some s' \<and> rank s \<le> rank s'" if "states t i = Some s" for s
    using assms that unfolding states_mono_def by blast
  have a: "states t' i \<noteq> None" if "states t i = Some New"
    using step [OF that] by auto
  have b: "states t' i = Some Scanned \<or> states t' i = Some Exited" if "states t i = Some Scanned"
  proof -
    from step [OF that] obtain s' where s': "states t' i = Some s'" "rank Scanned \<le> rank s'"
      by blast
    then show ?thesis by (cases s') (simp_all add: rank_def)
  qed
  have c: "states t' i = Some Exited" if "states t i = Some Exited"
  proof -
    from step [OF that] obtain s' where s': "states t' i = Some s'" "rank Exited \<le> rank s'"
      by blast
    then show ?thesis by (cases s') (simp_all add: rank_def)
  qed
  from a b c show ?thesis by blast
qed


lemma init_tracker_inv: "tracker_inv (init_tracker md mx et re loaded)"
  by (simp add: tracker_inv_def init_tracker_def live_def)

















lemma sqrt_50: "sqrt 2500 = 50"
  by (rule real_sqrt_unique) simp_all


lemma sqrt_gt_50: "50 < sqrt x \<longleftrightarrow> 2500 < x"
  using real_sqrt_less_iff [of 2500 x] by (simp add: sqrt_50)








section \<open>The claims about the counter\<close>

text \<open>
  Claim C3. Once an object id is in the counter's counted-ids set, the loop body of
  \<^verbatim>\<open>count_visitors\<close> leaves the counter and the tracker untouched for that id, and any
  sequence of invocations ends in the counter it would end in had the object been absent
  from every dictionary. The counted-ids set only grows, and the aggregate counter grows by
  exactly the number of ids newly added to that set, so each id accounts for at most one
  increment; a sequence showing only object \<open>i\<close>, however it oscillates, adds at most one.
\<close>

theorem counted_id_never_counted_again:
  "(i \<in> counted_ids c \<longrightarrow>
      count_object (i, d) (c, t) = (c, t)
      \<and> count_frames frames c = count_frames (without i frames) c)
   \<and> counted_ids c \<subseteq> counted_ids (count_frames frames c)
   \<and> count (count_frames frames c)
       = count c + card (counted_ids (count_frames frames c) - counted_ids c)
   \<and> ((\<forall>f \<in> set frames. fst ` set (fst f) \<subseteq> {i})
        \<longrightarrow> count (count_frames frames c) \<le> count c + 1)"
  using count_object_counted [of i c d t] count_frames_skip [of i c frames]
    count_frames_ids [of c frames] count_frames_only [of frames i c]
  by blast

text \<open>
  The theorem at a counter that has just counted object 0 crossing from right to left: two
  further invocations with another right-to-left crossing of object 0 leave the count at 1.
\<close>

theorem counted_id_never_counted_again_witness:
  "0 \<in> counted_ids
      (count_frames
         [([(0, example_info (200, 160))], example_tracker),
          ([(0, example_info (100, 160))], example_tracker)]
         (init_counter (1/2) Right 300))
   \<and> count (count_frames
         [([(0, example_info (200, 160))], example_tracker),
          ([(0, example_info (100, 160))], example_tracker)]
         (count_frames
            [([(0, example_info (200, 160))], example_tracker),
             ([(0, example_info (100, 160))], example_tracker)]
            (init_counter (1/2) Right 300))) = 1"
  using counted_id_never_counted_again
    [of 0 "count_frames
         [([(0, example_info (200, 160))], example_tracker),
          ([(0, example_info (100, 160))], example_tracker)]
         (init_counter (1/2) Right 300)"
        "example_info (100, 160)" example_tracker
        "[([(0, example_info (200, 160))], example_tracker),
          ([(0, example_info (100, 160))], example_tracker)]"]
  unfolding ex_run
  by (simp add: without_def count_visitors_def count_object_def)

text \<open>
  Claim C4. The loop body of \<^verbatim>\<open>count_visitors\<close> changes the aggregate counter only when the
  recorded side of the object is Right and its current side is Left; in particular an object
  whose recorded side is Left (so any Left-to-Right transition) leaves it unchanged, whatever
  the line position and the other fields of the counter. An object first seen by the counter
  that is on the same side \<open>s\<close> in every dictionary of a sequence of invocations is never put
  into the counted-ids set, and when it is the only object the counter does not change.
\<close>

theorem only_right_to_left_counts:
  "(count (fst (count_object (i, d) (c, t))) \<noteq> count c \<longrightarrow>
      (\<exists>ld. last_positions c i = Some ld \<and> position ld = Right)
      \<and> side_of (line_position c) (fst (obj_centroid d)) = Left)
   \<and> (last_positions c i = Some ld' \<and> position ld' = Left
        \<longrightarrow> count (fst (count_object (i, d) (c, t))) = count c)
   \<and> (i \<notin> counted_ids c \<and> last_positions c i = None
       \<and> (\<forall>(objs, tr) \<in> set frames. \<forall>(j, e) \<in> set objs.
              j = i \<longrightarrow> side_of (line_position c) (fst (obj_centroid e)) = s)
       \<longrightarrow> i \<notin> counted_ids (count_frames frames c)
           \<and> ((\<forall>f \<in> set frames. fst ` set (fst f) \<subseteq> {i})
                \<longrightarrow> count (count_frames frames c) = count c))"
proof -
  obtain c' t' where step: "count_object (i, d) (c, t) = (c', t')"
    by (cases "count_object (i, d) (c, t)")
  have A: "count (fst (count_object (i, d) (c, t))) \<noteq> count c \<longrightarrow>
      (\<exists>ld. last_positions c i = Some ld \<and> position ld = Right)
      \<and> side_of (line_position c) (fst (obj_centroid d)) = Left"
    using count_object_cases [OF step] step by auto
  have B: "last_positions c i = Some ld' \<and> position ld' = Left
        \<longrightarrow> count (fst (count_object (i, d) (c, t))) = count c"
    using count_object_cases [OF step] step by auto
  have C: "i \<notin> counted_ids (count_frames frames c)
           \<and> ((\<forall>f \<in> set frames. fst ` set (fst f) \<subseteq> {i})
                \<longrightarrow> count (count_frames frames c) = count c)"
    if h: "i \<notin> counted_ids c" "last_positions c i = None"
       "\<forall>(objs, tr) \<in> set frames. \<forall>(j, e) \<in> set objs.
              j = i \<longrightarrow> side_of (line_position c) (fst (obj_centroid e)) = s"
  proof -
    have "stays i s c" using h(1,2) by (simp add: stays_def)
    from count_frames_stays [OF this h(3)]
    have notin: "i \<notin> counted_ids (count_frames frames c)" by (simp add: stays_def)
    have "count (count_frames frames c) = count c"
      if only: "\<forall>f \<in> set frames. fst ` set (fst f) \<subseteq> {i}"
    proof -
      have "(\<Union>f \<in> set frames. fst ` set (fst f)) \<subseteq> {i}" using only by auto
      with count_frames_ids [of c frames] notin
      have "counted_ids (count_frames frames c) - counted_ids c = {}" by blast
      with count_frames_ids [of c frames] show ?thesis by simp
    qed
    with notin show ?thesis by blast
  qed
  from A B C show ?thesis by blast
qed

text \<open>The theorem at an object that is seen twice to the right of the line at 150.\<close>

theorem only_right_to_left_counts_witness:
  "0 \<notin> counted_ids (init_counter (1/2) Right 300)
   \<and> last_positions (init_counter (1/2) Right 300) 0 = None
   \<and> count (count_frames [([(0, example_info (200, 160))], example_tracker),
                          ([(0, example_info (260, 170))], example_tracker)]
              (init_counter (1/2) Right 300)) = 0"
  using only_right_to_left_counts
    [of 0 "example_info (200, 160)" "init_counter (1/2) Right 300" example_tracker
        "\<lparr>position = Left, counted = False\<rparr>"
        "[([(0, example_info (200, 160))], example_tracker),
          ([(0, example_info (260, 170))], example_tracker)]" Right]
  by (simp add: ex_line side_of_def example_info_def) (simp add: init_counter_def)

text \<open>
  Claim C10. After any sequence of \<^verbatim>\<open>count_visitors\<close> invocations on a newly constructed
  counter, \<^verbatim>\<open>get_stats\<close> reports \<open>total = total_left\<close> and \<open>total_right = 0\<close>, and the report
  is the same for every \<open>direction\<close> argument given to the constructor.
\<close>

theorem stats_left_only:
  "get_stats (count_frames frames (init_counter lp d fw))
     = get_stats (count_frames frames (init_counter lp d' fw))
   \<and> total (get_stats (count_frames frames (init_counter lp d fw)))
     = stats_total_left (get_stats (count_frames frames (init_counter lp d fw)))
   \<and> stats_total_right (get_stats (count_frames frames (init_counter lp d fw))) = 0"
proof -
  have same: "init_counter lp d fw = init_counter lp d' fw" by (simp add: init_counter_def)
  have "count (init_counter lp d fw) = total_left (init_counter lp d fw)"
       "total_right (init_counter lp d fw) = 0" by (simp_all add: init_counter_def)
  from count_frames_totals [OF this, of frames] same show ?thesis
    by (simp add: get_stats_def)
qed

text \<open>The theorem at one right-to-left crossing, for the directions Right and Left.\<close>

theorem stats_left_only_witness:
  "get_stats (count_frames
       [([(0, example_info (200, 160))], example_tracker),
        ([(0, example_info (100, 160))], example_tracker)]
       (init_counter (1/2) Right 300))
     = get_stats (count_frames
       [([(0, example_info (200, 160))], example_tracker),
        ([(0, example_info (100, 160))], example_tracker)]
       (init_counter (1/2) Left 300))
   \<and> get_stats (count_frames
       [([(0, example_info (200, 160))], example_tracker),
        ([(0, example_info (100, 160))], example_tracker)]
       (init_counter (1/2) Right 300))
     = \<lparr>total = 1, stats_total_left = 1, stats_total_right = 0\<rparr>"
proof -
  have "get_stats (count_frames
       [([(0, example_info (200, 160))], example_tracker),
        ([(0, example_info (100, 160))], example_tracker)]
       (init_counter (1/2) Right 300))
     = \<lparr>total = 1, stats_total_left = 1, stats_total_right = 0\<rparr>"
    unfolding ex_run by (simp add: get_stats_def)
  with stats_left_only
    [of "[([(0, example_info (200, 160))], example_tracker),
          ([(0, example_info (100, 160))], example_tracker)]" "1/2" Right 300 Left]
  show ?thesis by blast
qed


section \<open>The claims about the tracker\<close>

text \<open>
  Claim C6, as the code has it. The claim speaks of every \<^verbatim>\<open>update()\<close> call and every live
  object; the load shedding at the head of \<^verbatim>\<open>update\<close> removes objects without counting a
  missed frame for them, so the property holds from the tracker \<open>t1\<close> that the load shedding
  leaves. For every tracker satisfying the invariant, \<^verbatim>\<open>update\<close> returns; when there is no
  detection, no object is shed and every live object is missed once (\<^const>\<open>missed_once\<close>: its
  count goes up by one, it is removed exactly when the new count exceeds
  \<^verbatim>\<open>max_disappeared\<close>, and a removed object that was Scanned is Exited with its exit time
  stamped); when there are detections, the same holds for the object of every row that the
  matching loop has not used.
\<close>

theorem update_unmatched_missed_once:
  assumes "tracker_inv t" "shed_load now detections t = Some t1"
    "detections \<noteq> [] \<longrightarrow> objects t1 \<noteq> [] \<longrightarrow>
       argsort_ok argsort (map amin (cdist (map snd (objects t1)) (map centroid_of detections)))"
  shows "\<exists>objs t'. update argsort now detections frame t = Some (objs, t')
     \<and> (detections = [] \<longrightarrow> t1 = t \<and> (\<forall>i \<in> live t. missed_once now i t t'))
     \<and> (detections \<noteq> [] \<longrightarrow>
          (\<forall>ur uc tm.
             matching argsort now (map centroid_of detections) (map bbox_of detections) t1
               = Some (ur, uc, tm) \<longrightarrow>
             (\<forall>r < length (objects t1). r \<notin> ur \<longrightarrow>
                missed_once now (fst (objects t1 ! r)) t1 t')))"
  using update_props [OF assms, of frame] by blast

text \<open>
  The theorem at the tracker with two objects and one detection next to object 0: object 1,
  Scanned and missed for the 41st time, leaves the live set and is Exited at time 1.
\<close>

theorem update_unmatched_missed_once_witness:
  "\<exists>objs t'. update stable_argsort 1 [(90, 100, 130, 220, 9/10)] None two_tracker = Some (objs, t')
     \<and> 1 \<notin> live t' \<and> states t' 1 = Some Exited \<and> exit_times t' 1 = Some 1"
proof -
  have srt: "[(90, 100, 130, 220, 9/10)] \<noteq> [] \<longrightarrow> objects two_tracker \<noteq> [] \<longrightarrow>
       argsort_ok stable_argsort (map amin (cdist (map snd (objects two_tracker))
          (map centroid_of [(90, 100, 130, 220, 9/10)])))"
    by (simp add: argsort_ok_stable)
  have m: "matching stable_argsort 1 (map centroid_of [(90, 100, 130, 220, 9/10)])
             (map bbox_of [(90, 100, 130, 220, 9/10)]) two_tracker
           = Some ({0}, {0},
       two_tracker\<lparr>objects := [(0, (110, 160)), (1, (300, 160))],
         positions := [0 \<mapsto> (90, 100, 130, 220), 1 \<mapsto> (280, 100, 320, 220)],
         disappeared := [(0, 0), (1, 40)],
         timestamps := [(0, \<lparr>first_seen = 0, last_seen = 1\<rparr>),
                        (1, \<lparr>first_seen = 0, last_seen = 0\<rparr>)]\<rparr>)"
    using two_matching by (simp add: centroid_of_def bbox_of_def)
  from update_unmatched_missed_once [OF two_tracker_inv two_shed srt, of None]
  obtain objs t' where
    u: "update stable_argsort 1 [(90, 100, 130, 220, 9/10)] None two_tracker = Some (objs, t')"
    and r: "\<forall>ur uc tm.
             matching stable_argsort 1 (map centroid_of [(90, 100, 130, 220, 9/10)])
               (map bbox_of [(90, 100, 130, 220, 9/10)]) two_tracker
               = Some (ur, uc, tm) \<longrightarrow>
             (\<forall>r < length (objects two_tracker). r \<notin> ur \<longrightarrow>
                missed_once 1 (fst (objects two_tracker ! r)) two_tracker t')"
    by auto
  have "1 < length (objects two_tracker)" "(1::nat) \<notin> {0}" by (simp_all add: two_tracker_def)
  with r m have "missed_once 1 (fst (objects two_tracker ! 1)) two_tracker t'" by blast
  then have "1 \<notin> live t' \<and> states t' 1 = Some Exited \<and> exit_times t' 1 = Some 1"
    by (simp add: missed_once_def two_tracker_def)
  with u show ?thesis by blast
qed

text \<open>
  Claim C6 as stated fails where the load shedding fires: with three live objects and one
  detection, object 0 is live, has missed no frame, and is removed although its count would
  only be 1 against a limit of 40.
\<close>

theorem load_shedding_evicts_unmissed:
  "\<exists>objs t'. update stable_argsort 1 [(290, 100, 330, 220, 9/10)] None three_tracker
               = Some (objs, t')
     \<and> 0 \<in> live three_tracker
     \<and> map_of (disappeared three_tracker) 0 = Some 0
     \<and> max_disappeared three_tracker = 40
     \<and> 0 \<notin> live t'"
  unfolding update_def three_shed option.case
  by (simp add: Let_def associate_def three_tracker_def cdist_def euclidean_level
      centroid_of_def bbox_of_def stable_argsort_def upt_rec argmin_def assign_def nth_opt_def
      mark_disappeared_def deregister_def register_def get_objects_def object_entry_def
      is_already_counted_def live_def)





text \<open>
  Claim C9. For a tracker satisfying the invariant and a live object id, \<^verbatim>\<open>deregister\<close>
  returns and the object is gone from the live dictionaries whatever its state. If its state
  was Scanned, the state becomes Exited, the exit time is stamped and the person id mapped to
  the object, if any, joins the counted persons; in any other state the states, the exit
  times and the counted persons are unchanged.
\<close>

theorem deregister_live_object:
  assumes "tracker_inv t" "object_id \<in> live t"
  shows "\<exists>t'. deregister now object_id t = Some t'
     \<and> live t' = live t - {object_id}
     \<and> map_of (disappeared t') object_id = None
     \<and> positions t' object_id = None
     \<and> (states t object_id = Some Scanned \<longrightarrow>
           states t' = (states t)(object_id \<mapsto> Exited)
           \<and> exit_times t' = (exit_times t)(object_id \<mapsto> now)
           \<and> counted_people t' = counted_people t \<union> set_option (person_ids t object_id))
     \<and> (states t object_id \<noteq> Some Scanned \<longrightarrow>
           states t' = states t \<and> exit_times t' = exit_times t
           \<and> counted_people t' = counted_people t)"
proof -
  from deregister_live [OF assms, of now] obtain s where
    s: "states t object_id = Some s" and
    res: "deregister now object_id t =
       Some (t\<lparr>states := (if s = Scanned then (states t)(object_id \<mapsto> Exited) else states t),
               exit_times := (if s = Scanned then (exit_times t)(object_id \<mapsto> now) else exit_times t),
               counted_people :=
                 (if s = Scanned \<and> reid_enabled t
                  then (case person_ids t object_id of
                          Some pid \<Rightarrow> insert pid (counted_people t)
                        | None \<Rightarrow> counted_people t)
                  else counted_people t),
               objects := AList.delete object_id (objects t),
               disappeared := AList.delete object_id (disappeared t),
               positions := (positions t)(object_id := None)\<rparr>)" (is "_ = Some ?t'")
    by blast
  have off: "\<not> reid_enabled t \<Longrightarrow> person_ids t object_id = None"
    using tracker_invD(9) [OF assms(1)] by simp
  have a: "live ?t' = live t - {object_id}" by (simp add: live_def live_delete)
  have b: "map_of (disappeared ?t') object_id = None" by (simp add: delete_conv')
  have c: "positions ?t' object_id = None" by simp
  have d: "states ?t' = (states t)(object_id \<mapsto> Exited)
           \<and> exit_times ?t' = (exit_times t)(object_id \<mapsto> now)
           \<and> counted_people ?t' = counted_people t \<union> set_option (person_ids t object_id)"
    if "states t object_id = Some Scanned"
    using that s off by (cases "person_ids t object_id") auto
  have e: "states ?t' = states t \<and> exit_times ?t' = exit_times t
           \<and> counted_people ?t' = counted_people t"
    if "states t object_id \<noteq> Some Scanned"
    using that s by simp
  show ?thesis unfolding res using a b c d e by blast
qed

text \<open>The theorem at the Scanned object 0 of person 1, deregistered at time 9.\<close>

theorem deregister_live_object_witness:
  "\<exists>t'. deregister 9 0 scanned_tracker = Some t'
     \<and> live t' = {}
     \<and> states t' 0 = Some Exited
     \<and> exit_times t' 0 = Some 9
     \<and> counted_people t' = {1}"
proof -
  have s: "states scanned_tracker 0 = Some Scanned" "live scanned_tracker = {0}"
    "counted_people scanned_tracker = {}" "person_ids scanned_tracker 0 = Some 1"
    by (simp_all add: scanned_tracker_def live_def)
  have l: "0 \<in> live scanned_tracker" by (simp add: s)
  from deregister_live_object [OF scanned_tracker_inv l, of 9] s
  show ?thesis by auto
qed


text \<open>
  Claim C1 on the code. The first half holds: \<^verbatim>\<open>register\<close> puts an object whose resolved
  person id is in the counted persons directly into state Scanned. The second half fails:
  \<^verbatim>\<open>count_visitors\<close> looks only at its own counted ids, never at the state or the
  \<^verbatim>\<open>already_counted\<close> entry of the object. A person walks in from the right over the line
  (count 1), is missed until deregistered (person 1 becomes counted), and reappears to the
  right under the new track id 1, which is registered as person 1 in state Scanned; when the
  object steps over the line again the count goes to 2.
\<close>

theorem reentry_is_counted_again:
  "map_option (\<lambda>(c, t). (count c, states t 1, person_ids t 1, counted_people t))
     (run_frames stable_argsort
        (walk_in 1 @ [(3, False, [], Some 7), (4, False, [(140, 100, 180, 220, 9/10)], Some 7)])
        (example_counter, init_tracker 1 50 1000 True (Some example_reid)))
   = Some (1, Some Scanned, Some 1, {1})
   \<and> map_option (\<lambda>(c, t). (count c, states t 1, person_ids t 1, counted_people t))
     (run_frames stable_argsort
        (walk_in 1 @ [(3, False, [], Some 7)] @ walk_in 4)
        (example_counter, init_tracker 1 50 1000 True (Some example_reid)))
   = Some (2, Some Scanned, Some 1, {1})"
  by (simp add: eval_defs fun_upd_twist)


text \<open>
  Claim C2 on the code. After the same walk, with the limits of the defaults, the tracker is
  \<^const>\<open>scanned_tracker\<close>. The sweep at time 20 finds object 0 Scanned and last seen at time 2:
  it returns the id, the object is Exited with its exit time and gone from the live set, but
  person 1 is not among the counted persons, because \<^verbatim>\<open>check_for_exits\<close> sets the state to
  Exited before it calls \<^verbatim>\<open>deregister\<close>, which adds the person only for a Scanned object.
\<close>

theorem exit_sweep_leaves_person_uncounted:
  "map_option snd
     (run_frames stable_argsort (walk_in 1)
        (example_counter, init_tracker 40 50 10 True (Some example_reid)))
   = Some scanned_tracker
   \<and> (\<exists>t'. check_for_exits 20 scanned_tracker = Some ([0], t')
          \<and> 0 \<notin> live t' \<and> states t' 0 = Some Exited \<and> exit_times t' 0 = Some 20
          \<and> reid_enabled t' \<and> person_ids t' 0 = Some 1
          \<and> 1 \<notin> counted_people t')"
proof -
  have "\<exists>t'. check_for_exits 20 scanned_tracker = Some ([0], t')
          \<and> 0 \<notin> live t' \<and> states t' 0 = Some Exited \<and> exit_times t' 0 = Some 20
          \<and> reid_enabled t' \<and> person_ids t' 0 = Some 1
          \<and> 1 \<notin> counted_people t'"
    by (simp add: check_for_exits_def scanned_tracker_def deregister_def live_def)
  with walk_reaches_scanned_tracker show ?thesis by blast
qed



text \<open>
  Claim C8. Let the tracker satisfy the invariant and let \<^verbatim>\<open>argsort\<close> meet its contract. After
  any sequence of tracker and counter operations that returns, the invariant holds again and
  every object that had a state still has one, not an earlier one: a Scanned object is
  Scanned or Exited, an Exited object is Exited. Deregistering a live object in state New
  returns, removes it from the live set and leaves all states and exit times as they were.
\<close>

theorem states_only_move_forward:
  assumes "tracker_inv t" "\<And>ks. argsort_ok argsort ks"
  shows "(run_ops argsort ops (c, t) = Some (c', t') \<longrightarrow>
           tracker_inv t'
           \<and> (\<forall>i. (states t i = Some New \<longrightarrow> states t' i \<noteq> None)
                 \<and> (states t i = Some Scanned \<longrightarrow>
                       states t' i = Some Scanned \<or> states t' i = Some Exited)
                 \<and> (states t i = Some Exited \<longrightarrow> states t' i = Some Exited)))
     \<and> (i \<in> live t \<and> states t i = Some New \<longrightarrow>
           (\<exists>t''. deregister now i t = Some t'' \<and> live t'' = live t - {i}
                  \<and> states t'' = states t \<and> exit_times t'' = exit_times t))"
proof -
  have A: "tracker_inv t'
           \<and> (\<forall>i. (states t i = Some New \<longrightarrow> states t' i \<noteq> None)
                 \<and> (states t i = Some Scanned \<longrightarrow>
                       states t' i = Some Scanned \<or> states t' i = Some Exited)
                 \<and> (states t i = Some Exited \<longrightarrow> states t' i = Some Exited))"
    if r: "run_ops argsort ops (c, t) = Some (c', t')"
  proof -
    from run_ops_props [OF assms(2) assms(1) r]
    have a: "tracker_inv t'" and b: "states_mono t t'" by simp_all
    from states_mono_cases [OF b] a show ?thesis by blast
  qed
  have B: "\<exists>t''. deregister now i t = Some t'' \<and> live t'' = live t - {i}
                  \<and> states t'' = states t \<and> exit_times t'' = exit_times t"
    if lv: "i \<in> live t" and st: "states t i = Some New"
  proof -
    from deregister_live [OF assms(1) lv, of now] st
    have "deregister now i t =
       Some (t\<lparr>objects := AList.delete i (objects t),
               disappeared := AList.delete i (disappeared t),
               positions := (positions t)(i := None)\<rparr>)"
      by auto
    then show ?thesis by (simp add: live_def live_delete)
  qed
  from A B show ?thesis by blast
qed


text \<open>
  The theorem at the tracker with the New object 0 and the Scanned object 1, for a sequence
  that scans object 0, misses both objects once, sweeps for exits and then tries to mark the
  Exited object 1 as scanned and as counted.
\<close>

theorem states_only_move_forward_witness:
  "\<exists>c' t' t''.
     run_ops stable_argsort
       [MarkAsScanned 0, Update 1 [] None, CheckForExits 50, MarkAsScanned 1, MarkAsCounted 60 1]
       (example_counter, two_tracker) = Some (c', t')
     \<and> states two_tracker 0 = Some New \<and> states two_tracker 1 = Some Scanned
     \<and> tracker_inv t' \<and> states t' 0 = Some Exited \<and> states t' 1 = Some Exited
     \<and> deregister 5 0 two_tracker = Some t'' \<and> live t'' = {1}
     \<and> states t'' = states two_tracker"
proof -
  have "\<exists>c' t'. run_ops stable_argsort
       [MarkAsScanned 0, Update 1 [] None, CheckForExits 50, MarkAsScanned 1, MarkAsCounted 60 1]
       (example_counter, two_tracker) = Some (c', t')
     \<and> states t' 0 = Some Exited \<and> states t' 1 = Some Exited"
    by (simp add: eval_defs two_tracker_def)
  then obtain c' t' where
    r: "run_ops stable_argsort
       [MarkAsScanned 0, Update 1 [] None, CheckForExits 50, MarkAsScanned 1, MarkAsCounted 60 1]
       (example_counter, two_tracker) = Some (c', t')"
    and e: "states t' 0 = Some Exited" "states t' 1 = Some Exited"
    by blast
  have s: "states two_tracker 0 = Some New" "states two_tracker 1 = Some Scanned"
    "0 \<in> live two_tracker" "live two_tracker - {0} = {1}"
    by (simp_all add: two_tracker_def live_def)
  from states_only_move_forward [OF two_tracker_inv argsort_ok_stable,
      of "[MarkAsScanned 0, Update 1 [] None, CheckForExits 50, MarkAsScanned 1, MarkAsCounted 60 1]"
         example_counter c' t' 0 5] r s
  obtain t'' where "tracker_inv t'" "deregister 5 0 two_tracker = Some t''"
    "live t'' = {1}" "states t'' = states two_tracker"
    by auto
  with r e s show ?thesis by blast
qed







end
